theory Spec2Isabelle
  imports Complex_Main "HOL-Library.Word"
begin

section \<open>Pixel grids\<close>

text \<open>
  \<^verbatim>\<open>np.array(image)\<close> of a multi-band PIL image (RGB, RGBA, ...) is a three-dimensional
  \<^verbatim>\<open>uint8\<close> array of shape (height, width, channels). The shape is kept beside the data,
  as NumPy does: an array with no rows still has a width and a channel count.
  Single-band images (two-dimensional arrays) are not part of this model.
\<close>

type_synonym pixel = "8 word list"

record ndarray =
  nrows :: nat
  ncols :: nat
  nchan :: nat
  rows :: "pixel list list"

text \<open>
  The data of an array fills its shape. PIL keeps the width and the height of an image in
  C integers, so both are below \<open>2 ^ 31\<close>.
\<close>

definition wf_array :: "ndarray \<Rightarrow> bool" where
  "wf_array a \<longleftrightarrow>
     length (rows a) = nrows a \<and>
     (\<forall>r \<in> set (rows a). length r = ncols a \<and> (\<forall>p \<in> set r. length p = nchan a)) \<and>
     nrows a < 2 ^ 31 \<and> ncols a < 2 ^ 31"

definition pixel_at :: "ndarray \<Rightarrow> nat \<Rightarrow> nat \<Rightarrow> pixel" where
  "pixel_at a y c = rows a ! y ! c"

text \<open>
  NumPy raises \<^verbatim>\<open>ValueError\<close> when an assigned value cannot be broadcast to its target;
  \<^verbatim>\<open>int()\<close> raises \<^verbatim>\<open>ValueError\<close> on a NaN and \<^verbatim>\<open>OverflowError\<close> on an infinity.
\<close>

datatype error = ValueError | OverflowError

section \<open>Python floats\<close>

text \<open>
  A Python float is an IEEE 754 double: \<open>Finite m e\<close> is the number \<open>m * 2 ^ e\<close>, beside the
  two infinities and NaN. The sign of a zero is not kept: neither \<^verbatim>\<open>int()\<close> nor a product
  with a finite number can tell \<^verbatim>\<open>-0.0\<close> from \<^verbatim>\<open>0.0\<close>.
\<close>

datatype double = Finite int int | PosInf | NegInf | NaN

fun double_value :: "double \<Rightarrow> real" where
  "double_value (Finite m e) = of_int m * 2 powi e"
| "double_value PosInf = 0"
| "double_value NegInf = 0"
| "double_value NaN = 0"

text \<open>The number of binary digits of a positive integer.\<close>

function bit_length :: "int \<Rightarrow> int" where
  "bit_length n = (if n \<le> 0 then 0 else 1 + bit_length (n div 2))"
  by pat_completeness auto
termination
  by (relation "measure nat") auto

declare bit_length.simps [simp del]

text \<open>Rounding to the nearest integer, a tie going to the even one.\<close>

definition round_half_even :: "real \<Rightarrow> int" where
  "round_half_even t =
     (let k = \<lfloor>t\<rfloor> in
      if t - of_int k > 1 / 2 \<or> (t - of_int k = 1 / 2 \<and> odd k) then k + 1 else k)"

text \<open>
  The double nearest to the exact value \<open>m * 2 ^ e\<close> (round to nearest, ties to even): the
  result keeps 53 binary digits, or fewer below the smallest normal number, where the last
  digit has weight \<open>2 ^ -1074\<close>; a result of \<open>2 ^ 1024\<close> or more is an infinity.
\<close>

definition round_to_double :: "int \<Rightarrow> int \<Rightarrow> double" where
  "round_to_double m e =
     (if m = 0 then Finite 0 0
      else
        let q = max (bit_length \<bar>m\<bar> + e - 53) (- 1074);
            r = round_half_even (of_int \<bar>m\<bar> * 2 powi (e - q))
        in if bit_length r + q > 1024 then (if m < 0 then NegInf else PosInf)
           else Finite (sgn m * r) q)"

text \<open>\<^verbatim>\<open>float(n)\<close>, which a product of an \<^verbatim>\<open>int\<close> and a \<^verbatim>\<open>float\<close> applies to the \<^verbatim>\<open>int\<close>.\<close>

definition float_of_int :: "int \<Rightarrow> error + double" where
  "float_of_int n =
     (case round_to_double n 0 of
        Finite m e \<Rightarrow> Inr (Finite m e)
      | _ \<Rightarrow> Inl OverflowError)"

text \<open>The product of two floats.\<close>

fun float_mul :: "double \<Rightarrow> double \<Rightarrow> double" where
  "float_mul (Finite m1 e1) (Finite m2 e2) = round_to_double (m1 * m2) (e1 + e2)"
| "float_mul NaN _ = NaN"
| "float_mul _ NaN = NaN"
| "float_mul (Finite m e) PosInf = (if m = 0 then NaN else if m < 0 then NegInf else PosInf)"
| "float_mul (Finite m e) NegInf = (if m = 0 then NaN else if m < 0 then PosInf else NegInf)"
| "float_mul PosInf (Finite m e) = (if m = 0 then NaN else if m < 0 then NegInf else PosInf)"
| "float_mul NegInf (Finite m e) = (if m = 0 then NaN else if m < 0 then PosInf else NegInf)"
| "float_mul PosInf PosInf = PosInf"
| "float_mul PosInf NegInf = NegInf"
| "float_mul NegInf PosInf = NegInf"
| "float_mul NegInf NegInf = PosInf"

text \<open>\<^verbatim>\<open>int(x)\<close> on a float truncates toward zero.\<close>

fun py_int :: "double \<Rightarrow> error + int" where
  "py_int (Finite m e) =
     Inr (if 0 \<le> e then m * 2 ^ nat e else sgn m * (\<bar>m\<bar> div 2 ^ nat (- e)))"
| "py_int PosInf = Inl OverflowError"
| "py_int NegInf = Inl OverflowError"
| "py_int NaN = Inl ValueError"

section \<open>The Python and NumPy operations the function uses\<close>

text \<open>\<^verbatim>\<open>boundary_x = int(width * slider_position)\<close>\<close>

definition boundary_x :: "nat \<Rightarrow> double \<Rightarrow> error + int" where
  "boundary_x width slider_position =
     (case float_of_int (int width) of
        Inl err \<Rightarrow> Inl err
      | Inr w \<Rightarrow> py_int (float_mul w slider_position))"

text \<open>
  A slice bound \<open>i\<close> on an axis of length \<open>n\<close>: a negative bound counts from the end,
  and every bound is clipped to the axis.
\<close>

definition slice_index :: "nat \<Rightarrow> int \<Rightarrow> nat" where
  "slice_index n i = (if i < 0 then nat (max 0 (int n + i)) else min n (nat i))"

text \<open>\<^verbatim>\<open>a[:h, :w]\<close>\<close>

definition crop :: "nat \<Rightarrow> nat \<Rightarrow> ndarray \<Rightarrow> ndarray" where
  "crop h w a =
     \<lparr>nrows = min h (nrows a), ncols = min w (ncols a), nchan = nchan a,
      rows = map (take w) (take h (rows a))\<rparr>"

text \<open>
  A pixel of the source broadcast along the channel axis of the target: a one-channel
  source is repeated, an equal channel count is copied.
\<close>

definition broadcast_pixel :: "nat \<Rightarrow> pixel \<Rightarrow> pixel" where
  "broadcast_pixel n p = (if length p = n then p else replicate n (p ! 0))"

text \<open>
  \<^verbatim>\<open>dst[:, b:] = src[:, b:]\<close> for two arrays of the same height and width (both are
  crops to the common size), so only the channel axes can disagree.
\<close>

definition set_cols_from :: "int \<Rightarrow> ndarray \<Rightarrow> ndarray \<Rightarrow> error + ndarray" where
  "set_cols_from b dst src =
     (let k = slice_index (ncols dst) b in
      if nchan src = nchan dst \<or> nchan src = 1 then
        Inr (dst\<lparr>rows :=
               map2 (\<lambda>rd rs. take k rd @ map (broadcast_pixel (nchan dst)) (drop k rs))
                 (rows dst) (rows src)\<rparr>)
      else Inl ValueError)"

text \<open>
  \<^verbatim>\<open>a[:, s:e] = v\<close> for a flat list \<open>v\<close> (shape \<open>(len(v),)\<close>), which must broadcast
  along the channel axis. The slice is empty when its end is not after its start.
\<close>

definition fill_cols :: "int \<Rightarrow> int \<Rightarrow> pixel \<Rightarrow> ndarray \<Rightarrow> error + ndarray" where
  "fill_cols s e v a =
     (let i = slice_index (ncols a) s; j = slice_index (ncols a) e in
      if length v = nchan a \<or> length v = 1 then
        Inr (a\<lparr>rows :=
               map (\<lambda>r. take i r @ replicate (j - i) (broadcast_pixel (nchan a) v) @ drop (max i j) r)
                 (rows a)\<rparr>)
      else Inl ValueError)"

section \<open>The compositor\<close>

definition create_before_after_comparison :: "ndarray \<Rightarrow> ndarray \<Rightarrow> double \<Rightarrow> error + ndarray" where
  "create_before_after_comparison image1 image2 slider_position =
     (let height = min (nrows image1) (nrows image2);
          width = min (ncols image1) (ncols image2);
          img1_np = crop height width image1;
          img2_np = crop height width image2;
          result = img1_np
      in case boundary_x width slider_position of
           Inl err \<Rightarrow> Inl err
         | Inr bx \<Rightarrow>
             (case set_cols_from bx result img2_np of
                Inl err \<Rightarrow> Inl err
              | Inr result \<Rightarrow>
                  if bx > 0 \<and> bx < int width - 1 then
                    (let line_thickness = 3;
                         start_x = max 0 (bx - line_thickness div 2);
                         end_x = min (int width) (bx + line_thickness div 2)
                     in fill_cols start_x end_x [255, 255, 255] result)
                  else Inr result))"

section \<open>The compositor on a store\<close>

text \<open>
  The same function with its buffers made explicit, to follow which buffer each
  assignment writes. An address names a buffer (a PIL image's pixel data or the data of
  an array); \<open>next_addr\<close> is the first address never handed out.
  \<^verbatim>\<open>np.array\<close>, \<^verbatim>\<open>np.copy\<close> and \<^verbatim>\<open>Image.fromarray\<close> each give a new buffer;
  the basic slices \<^verbatim>\<open>img1_np[:height, :width]\<close> and \<^verbatim>\<open>img2_np[:height, :width]\<close> are
  views, read through \<open>crop\<close> from the buffer they share with \<^verbatim>\<open>np.array\<close>'s result.
\<close>

type_synonym addr = nat

record heap =
  next_addr :: addr
  cells :: "addr \<Rightarrow> ndarray"

definition alloc :: "ndarray \<Rightarrow> heap \<Rightarrow> addr \<times> heap" where
  "alloc a h =
     (next_addr h, h\<lparr>next_addr := Suc (next_addr h), cells := (cells h)(next_addr h := a)\<rparr>)"

definition store :: "addr \<Rightarrow> ndarray \<Rightarrow> heap \<Rightarrow> heap" where
  "store p a h = h\<lparr>cells := (cells h)(p := a)\<rparr>"

definition create_before_after_comparison_st ::
  "addr \<Rightarrow> addr \<Rightarrow> double \<Rightarrow> heap \<Rightarrow> (error + addr) \<times> heap" where
  "create_before_after_comparison_st image1 image2 slider_position h0 =
     (let (img1_np, h1) = alloc (cells h0 image1) h0;
          (img2_np, h2) = alloc (cells h1 image2) h1;
          height = min (nrows (cells h2 img1_np)) (nrows (cells h2 img2_np));
          width = min (ncols (cells h2 img1_np)) (ncols (cells h2 img2_np));
          (result, h3) = alloc (crop height width (cells h2 img1_np)) h2
      in case boundary_x width slider_position of
           Inl err \<Rightarrow> (Inl err, h3)
         | Inr bx \<Rightarrow>
             (case set_cols_from bx (cells h3 result) (crop height width (cells h3 img2_np)) of
                Inl err \<Rightarrow> (Inl err, h3)
              | Inr r \<Rightarrow>
                  (let h4 = store result r h3 in
                   if bx > 0 \<and> bx < int width - 1 then
                     (let line_thickness = 3;
                          start_x = max 0 (bx - line_thickness div 2);
                          end_x = min (int width) (bx + line_thickness div 2)
                      in case fill_cols start_x end_x [255, 255, 255] (cells h4 result) of
                           Inl err \<Rightarrow> (Inl err, h4)
                         | Inr r' \<Rightarrow>
                             (let h5 = store result r' h4;
                                  (img, h6) = alloc (cells h5 result) h5
                              in (Inr img, h6)))
                   else
                     (let (img, h5) = alloc (cells h4 result) h4 in (Inr img, h5)))))"

section \<open>Example inputs\<close>

text \<open>The doubles 0.0, 1.0, 0.5, -0.5, 0.6, 1.7 and \<open>2.0 ** 1023\<close>.\<close>

definition slider_0 :: double where "slider_0 = Finite 0 0"

definition slider_1 :: double where "slider_1 = Finite 1 0"

definition slider_0_5 :: double where "slider_0_5 = Finite 1 (- 1)"

definition slider_minus_0_5 :: double where "slider_minus_0_5 = Finite (- 1) (- 1)"

definition slider_0_6 :: double where "slider_0_6 = Finite 5404319552844595 (- 53)"

definition slider_1_7 :: double where "slider_1_7 = Finite 7656119366529843 (- 52)"

definition slider_huge :: double where "slider_huge = Finite 1 1023"

definition rgb_a5 :: ndarray where
  "rgb_a5 = \<lparr>nrows = 1, ncols = 5, nchan = 3,
     rows = [[[1, 1, 1], [1, 1, 1], [1, 1, 1], [1, 1, 1], [1, 1, 1]]]\<rparr>"

definition rgb_b5 :: ndarray where
  "rgb_b5 = \<lparr>nrows = 1, ncols = 5, nchan = 3,
     rows = [[[9, 9, 9], [9, 9, 9], [9, 9, 9], [9, 9, 9], [9, 9, 9]]]\<rparr>"

definition rgb_a6 :: ndarray where
  "rgb_a6 = \<lparr>nrows = 1, ncols = 6, nchan = 3,
     rows = [[[1, 1, 1], [1, 1, 1], [1, 1, 1], [1, 1, 1], [1, 1, 1], [1, 1, 1]]]\<rparr>"

definition rgb_b6 :: ndarray where
  "rgb_b6 = \<lparr>nrows = 1, ncols = 6, nchan = 3,
     rows = [[[9, 9, 9], [9, 9, 9], [9, 9, 9], [9, 9, 9], [9, 9, 9], [9, 9, 9]]]\<rparr>"

definition rgba_a3 :: ndarray where
  "rgba_a3 = \<lparr>nrows = 1, ncols = 3, nchan = 4,
     rows = [[[1, 1, 1, 255], [1, 1, 1, 255], [1, 1, 1, 255]]]\<rparr>"

definition rgba_b3 :: ndarray where
  "rgba_b3 = \<lparr>nrows = 1, ncols = 3, nchan = 4,
     rows = [[[9, 9, 9, 255], [9, 9, 9, 255], [9, 9, 9, 255]]]\<rparr>"

definition rgb_a10 :: ndarray where
  "rgb_a10 = \<lparr>nrows = 1, ncols = 10, nchan = 3,
     rows = [[[1, 1, 1], [1, 1, 1], [1, 1, 1], [1, 1, 1], [1, 1, 1],
              [1, 1, 1], [1, 1, 1], [1, 1, 1], [1, 1, 1], [1, 1, 1]]]\<rparr>"

definition rgb_b10 :: ndarray where
  "rgb_b10 = \<lparr>nrows = 1, ncols = 10, nchan = 3,
     rows = [[[9, 9, 9], [9, 9, 9], [9, 9, 9], [9, 9, 9], [9, 9, 9],
              [9, 9, 9], [9, 9, 9], [9, 9, 9], [9, 9, 9], [9, 9, 9]]]\<rparr>"

definition rgb_tall :: ndarray where
  "rgb_tall = \<lparr>nrows = 2, ncols = 2, nchan = 3,
     rows = [[[1, 1, 1], [2, 2, 2]], [[3, 3, 3], [4, 4, 4]]]\<rparr>"

definition rgb_wide :: ndarray where
  "rgb_wide = \<lparr>nrows = 1, ncols = 3, nchan = 3,
     rows = [[[7, 7, 7], [8, 8, 8], [9, 9, 9]]]\<rparr>"

definition two_images :: heap where
  "two_images = \<lparr>next_addr = 2, cells = (\<lambda>p. if p = 0 then rgb_a6 else rgb_b6)\<rparr>"

section \<open>Shapes, crops and slice bounds\<close>

lemma slice_index_le: "slice_index n i \<le> n"
  by (auto simp: slice_index_def)

lemma wf_array_nth:
  "wf_array a \<longleftrightarrow>
     length (rows a) = nrows a \<and>
     (\<forall>y < nrows a. length (rows a ! y) = ncols a \<and>
        (\<forall>c < ncols a. length (rows a ! y ! c) = nchan a)) \<and>
     nrows a < 2 ^ 31 \<and> ncols a < 2 ^ 31"
proof -
  have "(\<forall>r \<in> set (rows a). length r = ncols a \<and> (\<forall>p \<in> set r. length p = nchan a)) \<longleftrightarrow>
        (\<forall>y < length (rows a). length (rows a ! y) = ncols a \<and>
           (\<forall>c < length (rows a ! y). length (rows a ! y ! c) = nchan a))"
    by (simp add: all_set_conv_all_nth)
  then show ?thesis
    unfolding wf_array_def by auto
qed

lemma wf_arrayD:
  assumes "wf_array a" "y < nrows a"
  shows "length (rows a) = nrows a" "length (rows a ! y) = ncols a"
    "c < ncols a \<Longrightarrow> length (rows a ! y ! c) = nchan a"
  using assms by (simp_all add: wf_array_nth)

lemma wf_arrayI:
  assumes "length (rows a) = nrows a"
    and "\<And>y. y < nrows a \<Longrightarrow> length (rows a ! y) = ncols a"
    and "\<And>y c. y < nrows a \<Longrightarrow> c < ncols a \<Longrightarrow> length (rows a ! y ! c) = nchan a"
    and "nrows a < 2 ^ 31" and "ncols a < 2 ^ 31"
  shows "wf_array a"
  unfolding wf_array_nth using assms by simp

lemma crop_shape [simp]:
  "nrows (crop h w a) = min h (nrows a)" "ncols (crop h w a) = min w (ncols a)"
  "nchan (crop h w a) = nchan a"
  by (simp_all add: crop_def)

lemma crop_pixel:
  assumes "wf_array a" "y < min h (nrows a)" "c < min w (ncols a)"
  shows "pixel_at (crop h w a) y c = pixel_at a y c"
  using assms by (simp add: crop_def pixel_at_def wf_array_nth)

lemma wf_crop: "wf_array a \<Longrightarrow> wf_array (crop h w a)"
  by (rule wf_arrayI) (simp_all add: crop_def wf_array_nth min_less_iff_disj)

lemma crop_id: "wf_array a \<Longrightarrow> nrows a \<le> h \<Longrightarrow> ncols a \<le> w \<Longrightarrow> crop h w a = a"
  by (cases a) (simp add: crop_def wf_array_def map_idI)

lemma array_eqI:
  assumes "wf_array a" "wf_array b" "nrows a = nrows b" "ncols a = ncols b" "nchan a = nchan b"
    and "\<And>y c. y < nrows a \<Longrightarrow> c < ncols a \<Longrightarrow> pixel_at a y c = pixel_at b y c"
  shows "a = (b::ndarray)"
proof -
  have "rows a = rows b"
  proof (rule nth_equalityI)
    show "length (rows a) = length (rows b)" using assms by (simp add: wf_array_def)
  next
    fix y assume y: "y < length (rows a)"
    then have ya: "y < nrows a" and yb: "y < nrows b" using assms by (simp_all add: wf_array_def)
    show "rows a ! y = rows b ! y"
    proof (rule nth_equalityI)
      show "length (rows a ! y) = length (rows b ! y)"
        using wf_arrayD(2)[OF assms(1) ya] wf_arrayD(2)[OF assms(2) yb] assms(4) by simp
    next
      fix c assume "c < length (rows a ! y)"
      then have "c < ncols a" using wf_arrayD(2)[OF assms(1) ya] by simp
      then show "rows a ! y ! c = rows b ! y ! c"
        using assms(6)[OF ya] by (simp add: pixel_at_def)
    qed
  qed
  then show ?thesis using assms(3-5) by simp
qed

section \<open>The two assignments\<close>

lemma broadcast_pixel_same: "length p = n \<Longrightarrow> broadcast_pixel n p = p"
  by (simp add: broadcast_pixel_def)

lemma set_cols_from_result:
  assumes "nchan src = nchan dst"
  shows "\<exists>r. set_cols_from b dst src = Inr r \<and> nrows r = nrows dst \<and> ncols r = ncols dst \<and>
           nchan r = nchan dst \<and>
           rows r = map2 (\<lambda>rd rs. take (slice_index (ncols dst) b) rd @
                      map (broadcast_pixel (nchan dst)) (drop (slice_index (ncols dst) b) rs))
                      (rows dst) (rows src)"
  using assms by (simp add: set_cols_from_def Let_def)

lemma set_cols_from_pixels:
  assumes wd: "wf_array dst" and ws: "wf_array src"
    and sh: "nrows src = nrows dst" "ncols src = ncols dst" "nchan src = nchan dst"
  shows "\<exists>r. set_cols_from b dst src = Inr r \<and> wf_array r \<and>
           nrows r = nrows dst \<and> ncols r = ncols dst \<and> nchan r = nchan dst \<and>
           (\<forall>y < nrows dst. \<forall>c < ncols dst.
              pixel_at r y c =
                (if c < slice_index (ncols dst) b then pixel_at dst y c else pixel_at src y c))"
proof -
  define k where "k = slice_index (ncols dst) b"
  have k: "k \<le> ncols dst" unfolding k_def by (rule slice_index_le)
  obtain r where r: "set_cols_from b dst src = Inr r" "nrows r = nrows dst"
    "ncols r = ncols dst" "nchan r = nchan dst"
    "rows r = map2 (\<lambda>rd rs. take k rd @ map (broadcast_pixel (nchan dst)) (drop k rs))
                      (rows dst) (rows src)"
    using set_cols_from_result[OF sh(3), of b] unfolding k_def by blast
  have len: "length (rows dst) = nrows dst" "length (rows src) = nrows dst"
    using wd ws sh by (simp_all add: wf_array_nth)
  have row: "rows r ! y = take k (rows dst ! y) @ map (broadcast_pixel (nchan dst)) (drop k (rows src ! y))"
    if "y < nrows dst" for y
    using that len by (simp add: r(5))
  have px: "pixel_at r y c = (if c < k then pixel_at dst y c else pixel_at src y c)"
    if y: "y < nrows dst" and c: "c < ncols dst" for y c
  proof -
    have ld: "length (rows dst ! y) = ncols dst" using wd y by (simp add: wf_array_nth)
    have ls: "length (rows src ! y) = ncols dst" using ws y sh by (simp add: wf_array_nth)
    have lp: "length (rows src ! y ! c) = nchan dst" using ws y c sh by (simp add: wf_array_nth)
    show ?thesis
    proof (cases "c < k")
      case True
      then show ?thesis using row[OF y] ld k by (simp add: pixel_at_def nth_append)
    next
      case False
      then have "pixel_at r y c = broadcast_pixel (nchan dst) (rows src ! y ! (k + (c - k)))"
        using row[OF y] ld ls k c by (simp add: pixel_at_def nth_append min_def)
      then show ?thesis using False lp by (simp add: pixel_at_def broadcast_pixel_same)
    qed
  qed
  have wf: "wf_array r"
  proof (rule wf_arrayI)
    show "length (rows r) = nrows r" using len by (simp add: r(2,5))
  next
    fix y assume "y < nrows r"
    then have y: "y < nrows dst" by (simp add: r(2))
    have ld: "length (rows dst ! y) = ncols dst" using wd y by (simp add: wf_array_nth)
    have ls: "length (rows src ! y) = ncols dst" using ws y sh by (simp add: wf_array_nth)
    show "length (rows r ! y) = ncols r" using row[OF y] ld ls k by (simp add: r(3) min_def)
  next
    fix y c assume "y < nrows r" "c < ncols r"
    then have y: "y < nrows dst" and c: "c < ncols dst" by (simp_all add: r(2,3))
    have "length (pixel_at r y c) = nchan dst"
      using px[OF y c] wd ws sh y c by (simp add: pixel_at_def wf_array_nth)
    then show "length (rows r ! y ! c) = nchan r" by (simp add: pixel_at_def r(4))
  next
    show "nrows r < 2 ^ 31" using wd by (simp add: r(2) wf_array_nth)
  next
    show "ncols r < 2 ^ 31" using wd by (simp add: r(3) wf_array_nth)
  qed
  show ?thesis using r(1-4) wf px unfolding k_def by blast
qed

lemma fill_cols_pixels:
  assumes wa: "wf_array a" and ch: "nchan a = 3"
    and se: "0 \<le> s" "s \<le> e" "e \<le> int (ncols a)"
  shows "\<exists>r. fill_cols s e [255, 255, 255] a = Inr r \<and> wf_array r \<and>
           nrows r = nrows a \<and> ncols r = ncols a \<and> nchan r = nchan a \<and>
           (\<forall>y < nrows a. \<forall>c < ncols a.
              pixel_at r y c =
                (if s \<le> int c \<and> int c < e then [255, 255, 255] else pixel_at a y c))"
proof -
  define i where "i = nat s"
  define j where "j = nat e"
  have ij: "i \<le> j" "j \<le> ncols a" using se by (simp_all add: i_def j_def)
  have si: "slice_index (ncols a) s = i" "slice_index (ncols a) e = j"
    using se by (simp_all add: slice_index_def i_def j_def)
  define r where "r = a\<lparr>rows := map (\<lambda>r. take i r @ replicate (j - i) [255, 255, 255] @ drop j r) (rows a)\<rparr>"
  have res: "fill_cols s e [255, 255, 255] a = Inr r"
    using ch ij by (simp add: fill_cols_def si r_def broadcast_pixel_def max_def)
  have sh: "nrows r = nrows a" "ncols r = ncols a" "nchan r = nchan a"
    by (simp_all add: r_def)
  have row: "rows r ! y = take i (rows a ! y) @ replicate (j - i) [255, 255, 255] @ drop j (rows a ! y)"
    if "y < nrows a" for y
    using that wa by (simp add: r_def wf_array_nth)
  have px: "pixel_at r y c = (if s \<le> int c \<and> int c < e then [255, 255, 255] else pixel_at a y c)"
    if y: "y < nrows a" and c: "c < ncols a" for y c
  proof -
    have la: "length (rows a ! y) = ncols a" using wa y by (simp add: wf_array_nth)
    have cond: "(s \<le> int c \<and> int c < e) \<longleftrightarrow> (i \<le> c \<and> c < j)"
      using se by (auto simp: i_def j_def)
    have "pixel_at r y c = (if i \<le> c \<and> c < j then [255, 255, 255] else pixel_at a y c)"
    proof -
      consider "c < i" | "i \<le> c" "c < j" | "j \<le> c" by linarith
      then show ?thesis
      proof cases
        case 1
        then show ?thesis using row[OF y] la ij by (simp add: pixel_at_def nth_append)
      next
        case 2
        then have "c - i < j - i" by simp
        then show ?thesis using 2 row[OF y] la ij by (simp add: pixel_at_def nth_append min_def)
      next
        case 3
        then have "j + (c - j) = c" "\<not> c - i < j - i" "c - i - (j - i) = c - j" "\<not> c < i"
          using ij by simp_all
        then show ?thesis using 3 row[OF y] la ij c
          by (simp add: pixel_at_def nth_append min_def)
      qed
    qed
    then show ?thesis by (simp only: cond)
  qed
  have wf: "wf_array r"
  proof (rule wf_arrayI)
    show "length (rows r) = nrows r" using wa by (simp add: r_def wf_array_nth)
  next
    fix y assume "y < nrows r"
    then have y: "y < nrows a" by (simp add: sh)
    have la: "length (rows a ! y) = ncols a" using wa y by (simp add: wf_array_nth)
    show "length (rows r ! y) = ncols r" using row[OF y] la ij by (auto simp: sh min_def)
  next
    fix y c assume "y < nrows r" "c < ncols r"
    then have y: "y < nrows a" and c: "c < ncols a" by (simp_all add: sh)
    have "length (pixel_at r y c) = nchan a"
      using px[OF y c] wa y c ch by (simp add: pixel_at_def wf_array_nth)
    then show "length (rows r ! y ! c) = nchan r" by (simp add: pixel_at_def sh)
  next
    show "nrows r < 2 ^ 31" using wa by (simp add: sh wf_array_nth)
  next
    show "ncols r < 2 ^ 31" using wa by (simp add: sh wf_array_nth)
  qed
  show ?thesis using res sh wf px by blast
qed

section \<open>Rounding to a double\<close>

lemma bit_length_nonneg: "0 \<le> bit_length n"
  by (induction n rule: bit_length.induct) (subst bit_length.simps, simp)

lemma bit_length_nonpos [simp]: "n \<le> 0 \<Longrightarrow> bit_length n = 0"
  by (subst bit_length.simps) simp

lemma bit_length_bounds_nat:
  "0 < n \<Longrightarrow> 2 ^ nat (bit_length n - 1) \<le> n \<and> n < 2 ^ nat (bit_length n)"
proof (induction n rule: bit_length.induct)
  case (1 n)
  have bl: "bit_length n = 1 + bit_length (n div 2)"
    using "1.prems" by (subst bit_length.simps) simp
  show ?case
  proof (cases "n = 1")
    case True
    have "bit_length (1::int) = 1 + bit_length (1 div 2)"
      by (subst bit_length.simps) simp
    then have "bit_length (1::int) = 1" by simp
    then show ?thesis using True by simp
  next
    case False
    then have h: "0 < n div 2" using "1.prems" by simp
    have ih: "2 ^ nat (bit_length (n div 2) - 1) \<le> n div 2"
      "n div 2 < 2 ^ nat (bit_length (n div 2))"
      using "1.IH" "1.prems" h by simp_all
    define k where "k = nat (bit_length (n div 2) - 1)"
    have kpos: "0 < bit_length (n div 2)"
    proof (rule ccontr)
      assume "\<not> 0 < bit_length (n div 2)"
      then have "bit_length (n div 2) = 0" using bit_length_nonneg[of "n div 2"] by simp
      then show False using ih(2) h by simp
    qed
    have e1: "nat (bit_length n - 1) = Suc k" using kpos by (simp add: bl k_def)
    have e2: "nat (bit_length n) = Suc (Suc k)" using kpos by (simp add: bl k_def)
    have e3: "nat (bit_length (n div 2)) = Suc k" using kpos by (simp add: k_def)
    have a: "2 ^ k \<le> n div 2" using ih(1) by (simp add: k_def)
    have b: "n div 2 < 2 ^ Suc k" using ih(2) by (simp add: e3)
    have "2 * 2 ^ k \<le> n" using a by linarith
    moreover have "n < 2 * (2 * 2 ^ k)" using b by simp
    ultimately show ?thesis by (simp add: e1 e2)
  qed
qed

lemma bit_length_bounds:
  assumes "0 < n"
  shows "(2::real) powi (bit_length n - 1) \<le> of_int n" "of_int n < (2::real) powi (bit_length n)"
proof -
  have p: "0 < bit_length n"
  proof (rule ccontr)
    assume "\<not> 0 < bit_length n"
    then have "bit_length n = 0" using bit_length_nonneg[of n] by simp
    then show False using bit_length_bounds_nat[OF assms] assms by simp
  qed
  have "(2::real) powi (bit_length n - 1) = of_int (2 ^ nat (bit_length n - 1))"
    using p by (simp add: power_int_nonneg_exp)
  also have "\<dots> \<le> of_int n" using bit_length_bounds_nat[OF assms] by (simp only: of_int_le_iff)
  finally show "(2::real) powi (bit_length n - 1) \<le> of_int n" .
  have "of_int n < (of_int (2 ^ nat (bit_length n)) :: real)"
    using bit_length_bounds_nat[OF assms] by (simp only: of_int_less_iff)
  also have "\<dots> = (2::real) powi (bit_length n)"
    using p by (simp add: power_int_nonneg_exp)
  finally show "of_int n < (2::real) powi (bit_length n)" .
qed

lemma two_powi_less_imp: "(2::real) powi a < 2 powi b \<Longrightarrow> a < b"
proof (rule ccontr)
  assume lt: "(2::real) powi a < 2 powi b" and "\<not> a < b"
  then have "b \<le> a" by simp
  then have "(2::real) powi b \<le> 2 powi a" by (intro power_int_increasing) simp_all
  then show False using lt by simp
qed

lemma two_powi_le_imp: "(2::real) powi a \<le> 2 powi b \<Longrightarrow> a \<le> b"
proof (rule ccontr)
  assume le: "(2::real) powi a \<le> 2 powi b" and "\<not> a \<le> b"
  then have "b < a" by simp
  then have "(2::real) powi b < 2 powi a" by (intro power_int_strict_increasing) simp_all
  then show False using le by simp
qed

lemma level_unique:
  fixes x :: real
  assumes "2 powi (L - 1) \<le> x" "x < 2 powi L" "2 powi (L' - 1) \<le> x" "x < 2 powi L'"
  shows "L = L'"
proof -
  have "(2::real) powi (L - 1) < 2 powi L'" using assms(1,4) by linarith
  then have a: "L - 1 < L'" by (rule two_powi_less_imp)
  have "(2::real) powi (L' - 1) < 2 powi L" using assms(3,2) by linarith
  then have b: "L' - 1 < L" by (rule two_powi_less_imp)
  show ?thesis using a b by simp
qed

lemma round_half_even_cases:
  "round_half_even t = \<lfloor>t\<rfloor> \<or> round_half_even t = \<lfloor>t\<rfloor> + 1"
  by (simp add: round_half_even_def Let_def)

lemma round_half_even_of_int [simp]: "round_half_even (of_int k) = k"
  by (simp add: round_half_even_def Let_def)

lemma round_half_even_mono:
  assumes "s \<le> t"
  shows "round_half_even s \<le> round_half_even t"
proof -
  have fl: "\<lfloor>s\<rfloor> \<le> \<lfloor>t\<rfloor>" using assms by (rule floor_mono)
  show ?thesis
  proof (cases "\<lfloor>s\<rfloor> < \<lfloor>t\<rfloor>")
    case True
    have "round_half_even s \<le> \<lfloor>s\<rfloor> + 1" using round_half_even_cases[of s] by auto
    moreover have "\<lfloor>t\<rfloor> \<le> round_half_even t" using round_half_even_cases[of t] by auto
    ultimately show ?thesis using True by linarith
  next
    case False
    then have eq: "\<lfloor>s\<rfloor> = \<lfloor>t\<rfloor>" using fl by simp
    have d: "s - of_int \<lfloor>t\<rfloor> \<le> t - of_int \<lfloor>t\<rfloor>" using assms by simp
    show ?thesis
    proof (cases "round_half_even s = \<lfloor>s\<rfloor>")
      case True
      then show ?thesis using round_half_even_cases[of t] eq by auto
    next
      case False
      then have up: "s - of_int \<lfloor>t\<rfloor> > 1 / 2 \<or> (s - of_int \<lfloor>t\<rfloor> = 1 / 2 \<and> odd \<lfloor>t\<rfloor>)"
        by (auto simp: round_half_even_def Let_def eq split: if_splits)
      then have "t - of_int \<lfloor>t\<rfloor> > 1 / 2 \<or> (t - of_int \<lfloor>t\<rfloor> = 1 / 2 \<and> odd \<lfloor>t\<rfloor>)"
        using d by linarith
      then have "round_half_even t = \<lfloor>t\<rfloor> + 1"
        by (simp add: round_half_even_def Let_def)
      then show ?thesis using round_half_even_cases[of s] eq by auto
    qed
  qed
qed

lemma round_half_even_nonneg: "0 \<le> t \<Longrightarrow> 0 \<le> round_half_even t"
  using round_half_even_mono[of 0 t] round_half_even_of_int[of 0] by simp

lemma two_powi_div: "(2::real) powi a / 2 powi b = 2 powi (a - b)"
  by (simp add: power_int_diff)

lemma scaled_power_is_int:
  assumes "b \<le> a"
  shows "(2::real) powi a / 2 powi b = of_int (2 ^ nat (a - b))"
  using assms by (simp add: two_powi_div power_int_nonneg_exp)

lemma rounded_value_mono:
  fixes x y :: real
  assumes xy: "x \<le> y"
    and lx: "2 powi (Lx - 1) \<le> x" "x < 2 powi Lx"
    and ly: "2 powi (Ly - 1) \<le> y" "y < 2 powi Ly"
    and qx: "qx = max (Lx - 53) (- 1074)" and qy: "qy = max (Ly - 53) (- 1074)"
  shows "of_int (round_half_even (x / 2 powi qx)) * 2 powi qx \<le>
         of_int (round_half_even (y / 2 powi qy)) * (2::real) powi qy"
proof -
  have "(2::real) powi (Lx - 1) < 2 powi Ly" using lx(1) xy ly(2) by linarith
  then have LL: "Lx \<le> Ly" using two_powi_less_imp[of "Lx - 1" Ly] by simp
  then have qq: "qx \<le> qy" by (simp add: qx qy)
  show ?thesis
  proof (cases "qx = qy")
    case True
    have "x / 2 powi qy \<le> y / 2 powi qy" using xy by (simp add: divide_right_mono)
    then have "round_half_even (x / 2 powi qy) \<le> round_half_even (y / 2 powi qy)"
      by (rule round_half_even_mono)
    then have "(of_int (round_half_even (x / 2 powi qy)) :: real) \<le>
               of_int (round_half_even (y / 2 powi qy))" by simp
    then show ?thesis unfolding True by (intro mult_right_mono) simp_all
  next
    case False
    then have lt: "qx < qy" using qq by simp
    then have qy': "qy = Ly - 53" and L1: "Lx \<le> Ly - 1" by (auto simp: qx qy)
    define B :: real where "B = 2 powi (Ly - 1)"
    have xB: "x \<le> B"
    proof -
      have "(2::real) powi Lx \<le> 2 powi (Ly - 1)" using L1 by (intro power_int_increasing) simp_all
      then show ?thesis using lx(2) by (simp add: B_def)
    qed
    have By: "B \<le> y" using ly(1) by (simp add: B_def)
    have ix: "B / 2 powi qx = of_int (2 ^ nat (Ly - 1 - qx))"
      unfolding B_def using lt qy' by (intro scaled_power_is_int) simp
    have iy: "B / 2 powi qy = of_int (2 ^ nat (Ly - 1 - qy))"
      unfolding B_def using qy' by (intro scaled_power_is_int) simp
    have "round_half_even (x / 2 powi qx) \<le> round_half_even (B / 2 powi qx)"
      using xB by (intro round_half_even_mono) (simp add: divide_right_mono)
    then have "(of_int (round_half_even (x / 2 powi qx)) :: real) \<le> B / 2 powi qx"
      unfolding ix round_half_even_of_int by simp
    then have "of_int (round_half_even (x / 2 powi qx)) * 2 powi qx \<le> B / 2 powi qx * 2 powi qx"
      by (intro mult_right_mono) simp_all
    then have a: "of_int (round_half_even (x / 2 powi qx)) * 2 powi qx \<le> B" by simp
    have "round_half_even (B / 2 powi qy) \<le> round_half_even (y / 2 powi qy)"
      using By by (intro round_half_even_mono) (simp add: divide_right_mono)
    then have "B / 2 powi qy \<le> (of_int (round_half_even (y / 2 powi qy)) :: real)"
      unfolding iy round_half_even_of_int by simp
    then have "B / 2 powi qy * 2 powi qy \<le> of_int (round_half_even (y / 2 powi qy)) * 2 powi qy"
      by (intro mult_right_mono) simp_all
    then have b: "B \<le> of_int (round_half_even (y / 2 powi qy)) * 2 powi qy" by simp
    show ?thesis using a b by linarith
  qed
qed

lemma level_of_bit_length:
  assumes "0 < m"
  shows "(2::real) powi (bit_length m + e - 1) \<le> of_int m * 2 powi e"
    "of_int m * 2 powi e < (2::real) powi (bit_length m + e)"
proof -
  have a: "(2::real) powi (bit_length m + e - 1) = 2 powi (bit_length m - 1) * 2 powi e"
    using power_int_add[of "2::real" "bit_length m - 1" e] by (simp add: algebra_simps)
  have b: "(2::real) powi (bit_length m + e) = 2 powi (bit_length m) * 2 powi e"
    using power_int_add[of "2::real" "bit_length m" e] by simp
  show "(2::real) powi (bit_length m + e - 1) \<le> of_int m * 2 powi e"
    unfolding a using bit_length_bounds(1)[OF assms] by (intro mult_right_mono) simp_all
  show "of_int m * 2 powi e < (2::real) powi (bit_length m + e)"
    unfolding b using bit_length_bounds(2)[OF assms] by (intro mult_strict_right_mono) simp_all
qed

lemma scaled_mantissa:
  "of_int m * (2::real) powi (e - q) = (of_int m * 2 powi e) / 2 powi q"
  by (simp add: power_int_diff)

text \<open>What rounding a positive exact value gives.\<close>

lemma round_to_double_pos:
  assumes "0 < m"
    and "q = max (bit_length m + e - 53) (- 1074)"
    and "r = round_half_even ((of_int m * 2 powi e) / 2 powi q)"
  shows "round_to_double m e = (if bit_length r + q > 1024 then PosInf else Finite r q)"
  using assms by (simp add: round_to_double_def Let_def scaled_mantissa)

lemma round_to_double_neg:
  assumes "m < 0"
    and "q = max (bit_length (- m) + e - 53) (- 1074)"
    and "r = round_half_even ((of_int (- m) * 2 powi e) / 2 powi q)"
  shows "round_to_double m e = (if bit_length r + q > 1024 then NegInf else Finite (- r) q)"
proof -
  have "\<bar>m\<bar> = - m" using assms(1) by simp
  then show ?thesis using assms by (simp add: round_to_double_def Let_def scaled_mantissa)
qed

lemma bit_length_le:
  assumes "0 < r" "of_int r * (2::real) powi q \<le> 2 powi K"
  shows "bit_length r + q \<le> K + 1"
proof -
  have "(2::real) powi (bit_length r + q - 1) \<le> of_int r * 2 powi q"
    by (rule level_of_bit_length(1)[OF assms(1)])
  then have "(2::real) powi (bit_length r + q - 1) \<le> 2 powi K" using assms(2) by linarith
  then have "bit_length r + q - 1 \<le> K" by (rule two_powi_le_imp)
  then show ?thesis by simp
qed

text \<open>A nonnegative exact value of at most \<open>2 ^ 1023\<close> rounds to a finite double.\<close>

lemma round_to_double_finite:
  assumes m: "0 \<le> m" and le: "of_int m * (2::real) powi e \<le> 2 powi 1023"
  shows "\<exists>r q. round_to_double m e = Finite r q \<and> 0 \<le> r"
proof (cases "m = 0")
  case True
  then show ?thesis by (simp add: round_to_double_def)
next
  case False
  then have mp: "0 < m" using m by simp
  define x :: real where "x = of_int m * 2 powi e"
  define L where "L = bit_length m + e"
  define q where "q = max (L - 53) (- 1074)"
  define r where "r = round_half_even (x / 2 powi q)"
  have lx: "2 powi (L - 1) \<le> x" "x < 2 powi L"
    using level_of_bit_length[OF mp, of e] by (simp_all add: x_def L_def)
  have x0: "0 \<le> x" using m by (simp add: x_def)
  have r0: "0 \<le> r" unfolding r_def using x0 by (intro round_half_even_nonneg) simp
  have ly: "(2::real) powi (1024 - 1) \<le> 2 powi 1023" "(2::real) powi 1023 < 2 powi 1024"
    by simp_all
  have "of_int r * 2 powi q \<le>
        of_int (round_half_even ((2::real) powi 1023 / 2 powi (max (1024 - 53) (- 1074)))) *
          (2::real) powi (max (1024 - 53) (- 1074))"
    unfolding r_def using le lx ly
    by (intro rounded_value_mono[where Lx = L and Ly = 1024]) (simp_all add: x_def q_def)
  also have "\<dots> = 2 powi 1023"
  proof -
    have "(2::real) powi 1023 / 2 powi 971 = of_int (2 ^ nat (1023 - 971))"
      by (intro scaled_power_is_int) simp
    then have "round_half_even ((2::real) powi 1023 / 2 powi 971) = 2 ^ nat (1023 - 971)"
      by (simp only: round_half_even_of_int)
    then have "of_int (round_half_even ((2::real) powi 1023 / 2 powi 971)) * (2::real) powi 971 =
               2 ^ 52 * 2 powi 971" by simp
    also have "\<dots> = (2::real) powi 52 * 2 powi 971" by simp
    also have "\<dots> = (2::real) powi 1023"
      using power_int_add[of "2::real" 52 971] by simp
    finally show ?thesis by simp
  qed
  finally have bound: "of_int r * (2::real) powi q \<le> 2 powi 1023" .
  have "(2::real) powi (L - 1) < 2 powi 1024" using lx(1) le ly(2) by (simp add: x_def)
  then have L: "L \<le> 1024" using two_powi_less_imp[of "L - 1" 1024] by simp
  have nov: "bit_length r + q \<le> 1024"
  proof (cases "r = 0")
    case True
    then show ?thesis using L by (simp add: q_def)
  next
    case False
    then have "0 < r" using r0 by simp
    then show ?thesis using bit_length_le[OF _ bound] by simp
  qed
  have "round_to_double m e = Finite r q"
    using round_to_double_pos[OF mp, of q e r] nov by (simp add: q_def L_def r_def x_def)
  then show ?thesis using r0 by blast
qed

text \<open>Rounding is monotone on nonnegative exact values.\<close>

lemma round_to_double_mono:
  assumes m1: "0 \<le> m1" and m2: "0 \<le> m2"
    and le: "of_int m1 * (2::real) powi e1 \<le> of_int m2 * 2 powi e2"
    and f1: "round_to_double m1 e1 = Finite r1 q1"
    and f2: "round_to_double m2 e2 = Finite r2 q2"
  shows "of_int r1 * (2::real) powi q1 \<le> of_int r2 * 2 powi q2"
proof (cases "m1 = 0")
  case True
  then have "r1 = 0" using f1 by (simp add: round_to_double_def)
  moreover have "0 \<le> r2"
  proof (cases "m2 = 0")
    case True
    then show ?thesis using f2 by (simp add: round_to_double_def)
  next
    case False
    then have "0 < m2" using m2 by simp
    from round_to_double_pos[OF this refl refl, of e2] f2
    have "r2 = round_half_even ((of_int m2 * 2 powi e2) / 2 powi (max (bit_length m2 + e2 - 53) (- 1074)))"
      by (simp split: if_splits)
    then show ?thesis using m2 by (simp add: round_half_even_nonneg)
  qed
  ultimately show ?thesis by simp
next
  case False
  then have p1: "0 < m1" using m1 by simp
  have p2: "0 < m2"
  proof (rule ccontr)
    assume "\<not> 0 < m2"
    then have "m2 = 0" using m2 by simp
    moreover have "0 < of_int m1 * (2::real) powi e1" using p1 by simp
    ultimately show False using le by simp
  qed
  from round_to_double_pos[OF p1 refl refl, of e1] f1
  have a1: "q1 = max (bit_length m1 + e1 - 53) (- 1074)"
    "r1 = round_half_even ((of_int m1 * 2 powi e1) / 2 powi q1)"
    by (simp_all split: if_splits)
  from round_to_double_pos[OF p2 refl refl, of e2] f2
  have a2: "q2 = max (bit_length m2 + e2 - 53) (- 1074)"
    "r2 = round_half_even ((of_int m2 * 2 powi e2) / 2 powi q2)"
    by (simp_all split: if_splits)
  show ?thesis
    unfolding a1(2) a2(2)
    by (rule rounded_value_mono[OF le level_of_bit_length[OF p1] level_of_bit_length[OF p2] a1(1) a2(1)])
qed

text \<open>A value that is a double rounds to itself.\<close>

lemma round_to_double_exact:
  assumes mp: "0 < m" and kp: "0 < k"
    and eq: "of_int m * (2::real) powi e = of_int k * 2 powi j"
    and bl: "bit_length k \<le> 53" and j: "- 1074 \<le> j"
    and f: "round_to_double m e = Finite r q"
  shows "of_int r * (2::real) powi q = of_int k * 2 powi j"
proof -
  from round_to_double_pos[OF mp refl refl, of e] f
  have a: "q = max (bit_length m + e - 53) (- 1074)"
    "r = round_half_even ((of_int m * 2 powi e) / 2 powi q)"
    by (simp_all split: if_splits)
  have "bit_length m + e = bit_length k + j"
    using level_of_bit_length[OF mp, of e] level_of_bit_length[OF kp, of j]
    unfolding eq by (rule level_unique)
  then have qj: "q \<le> j" using bl j by (simp add: a(1))
  have "(of_int m * 2 powi e) / 2 powi q = of_int k * ((2::real) powi j / 2 powi q)"
    unfolding eq by simp
  also have "\<dots> = of_int k * of_int (2 ^ nat (j - q))"
    using scaled_power_is_int[OF qj] by simp
  also have "\<dots> = of_int (k * 2 ^ nat (j - q))" by simp
  finally have "r = k * 2 ^ nat (j - q)" unfolding a(2) by (simp only: round_half_even_of_int)
  then have "of_int r * (2::real) powi q = of_int k * (of_int (2 ^ nat (j - q)) * 2 powi q)"
    by simp
  also have "of_int (2 ^ nat (j - q)) * (2::real) powi q = (2 powi j / 2 powi q) * 2 powi q"
    using scaled_power_is_int[OF qj] by simp
  also have "\<dots> = 2 powi j" by simp
  finally show ?thesis .
qed

text \<open>\<open>int()\<close> of a nonnegative finite double is the floor of its value.\<close>

lemma py_int_nonneg:
  assumes "0 \<le> r"
  shows "py_int (Finite r q) = Inr \<lfloor>of_int r * (2::real) powi q\<rfloor>"
proof (cases "0 \<le> q")
  case True
  then have "of_int r * (2::real) powi q = of_int (r * 2 ^ nat q)"
    by (simp add: power_int_nonneg_exp)
  then have "\<lfloor>of_int r * (2::real) powi q\<rfloor> = r * 2 ^ nat q"
    by (simp only: floor_of_int)
  then show ?thesis using True by (simp del: of_int_mult of_int_power)
next
  case False
  then have "(2::real) powi q = 1 / of_int (2 ^ nat (- q))"
    by (simp add: power_int_def field_simps)
  then have "\<lfloor>of_int r * (2::real) powi q\<rfloor> = \<lfloor>(of_int r :: real) / of_int (2 ^ nat (- q))\<rfloor>"
    by simp
  also have "\<dots> = r div 2 ^ nat (- q)" by (rule floor_divide_of_int_eq)
  finally show ?thesis using False assms by (cases "r = 0") simp_all
qed

lemma py_int_nonpos:
  assumes "0 \<le> r"
  shows "py_int (Finite (- r) q) = Inr (- \<lfloor>of_int r * (2::real) powi q\<rfloor>)"
proof -
  have "py_int (Finite r q) = Inr \<lfloor>of_int r * (2::real) powi q\<rfloor>"
    using assms by (rule py_int_nonneg)
  then show ?thesis using assms by (cases "r = 0") (auto split: if_splits)
qed

section \<open>The boundary column\<close>

lemma two_powi_1023_ge: "x \<le> 2 ^ 53 \<Longrightarrow> x \<le> (2::real) powi 1023"
proof -
  assume "x \<le> 2 ^ 53"
  moreover have "(2::real) powi 53 \<le> 2 powi 1023" by (intro power_int_increasing) simp_all
  ultimately show ?thesis by simp
qed

text \<open>An integer below \<open>2 ^ 53\<close> is a double.\<close>

lemma round_to_double_int:
  assumes "0 \<le> n" "n < 2 ^ 53"
  shows "\<exists>r q. round_to_double n 0 = Finite r q \<and> 0 \<le> r \<and> of_int r * (2::real) powi q = of_int n"
proof (cases "n = 0")
  case True
  then show ?thesis by (simp add: round_to_double_def)
next
  case False
  then have np: "0 < n" using assms by simp
  have le53: "of_int n * (2::real) powi 0 \<le> 2 powi 52 * 2"
  proof -
    have "n < 2 ^ 53" using assms(2) .
    then have "(of_int n :: real) < of_int (2 ^ 53)" by (simp only: of_int_less_iff)
    then show ?thesis by simp
  qed
  have "of_int n * (2::real) powi 0 \<le> 2 powi 1023"
    using le53 by (intro two_powi_1023_ge) simp
  then obtain r q where f: "round_to_double n 0 = Finite r q" and r: "0 \<le> r"
    using round_to_double_finite[of n 0] assms(1) by blast
  have "(of_int n :: real) < 2 powi 53"
  proof -
    have "(of_int n :: real) < of_int (2 ^ 53)" using assms(2) by (simp only: of_int_less_iff)
    then show ?thesis by simp
  qed
  then have "(2::real) powi (bit_length n - 1) < 2 powi 53"
    using bit_length_bounds(1)[OF np] by linarith
  then have bl: "bit_length n \<le> 53" using two_powi_less_imp[of "bit_length n - 1" 53] by simp
  have "of_int r * (2::real) powi q = of_int n * 2 powi 0"
    by (rule round_to_double_exact[OF np np refl bl _ f]) simp
  then show ?thesis using f r by simp
qed

lemma float_of_int_exact:
  assumes "W < 2 ^ 31"
  shows "\<exists>r q. float_of_int (int W) = Inr (Finite r q) \<and> 0 \<le> r \<and>
           of_int r * (2::real) powi q = real W"
proof -
  have "int W < 2 ^ 31" using assms by (metis of_nat_less_iff of_nat_numeral of_nat_power)
  then have "int W < 2 ^ 53" by simp
  then obtain r q where "round_to_double (int W) 0 = Finite r q" "0 \<le> r"
    "of_int r * (2::real) powi q = of_int (int W)"
    using round_to_double_int[of "int W"] by auto
  then show ?thesis by (auto simp: float_of_int_def)
qed

text \<open>The boundary column for a nonnegative slider position, as a floor of the rounded product.\<close>

lemma boundary_x_nonneg:
  assumes W: "W < 2 ^ 31" and m: "0 \<le> m"
    and le: "real W * (of_int m * 2 powi e) \<le> 2 ^ 53"
  shows "\<exists>rw qw r q.
           0 \<le> rw \<and> of_int rw * (2::real) powi qw = real W \<and>
           round_to_double (rw * m) (qw + e) = Finite r q \<and> 0 \<le> r \<and>
           boundary_x W (Finite m e) = Inr \<lfloor>of_int r * (2::real) powi q\<rfloor>"
proof -
  obtain rw qw where w: "float_of_int (int W) = Inr (Finite rw qw)" "0 \<le> rw"
    "of_int rw * (2::real) powi qw = real W"
    using float_of_int_exact[OF W] by blast
  have val: "of_int (rw * m) * (2::real) powi (qw + e) = real W * (of_int m * 2 powi e)"
    using w(3) power_int_add[of "2::real" qw e] by (simp add: algebra_simps)
  have "of_int (rw * m) * (2::real) powi (qw + e) \<le> 2 powi 1023"
    unfolding val using le by (rule two_powi_1023_ge)
  moreover have "0 \<le> rw * m" using w(2) m by simp
  ultimately obtain r q where f: "round_to_double (rw * m) (qw + e) = Finite r q" and r: "0 \<le> r"
    using round_to_double_finite[of "rw * m" "qw + e"] by blast
  have "boundary_x W (Finite m e) = Inr \<lfloor>of_int r * (2::real) powi q\<rfloor>"
    using w(1) f py_int_nonneg[OF r, of q] by (simp add: boundary_x_def)
  then show ?thesis using w(2,3) f r by blast
qed

lemma boundary_x_unique_form:
  assumes "of_int rw * (2::real) powi qw = real W"
  shows "of_int (rw * m) * (2::real) powi (qw + e) = real W * (of_int m * 2 powi e)"
  using assms power_int_add[of "2::real" qw e] by (simp add: algebra_simps)

text \<open>
  The boundary column lies between the floor of the exact product and that floor plus one,
  and is monotone in the slider position.
\<close>

lemma boundary_x_bounds:
  assumes W: "W < 2 ^ 31" and m: "0 \<le> m"
    and le: "real W * (of_int m * 2 powi e) \<le> 2 ^ 52"
  shows "\<exists>b. boundary_x W (Finite m e) = Inr b \<and>
           \<lfloor>real W * (of_int m * 2 powi e)\<rfloor> \<le> b \<and>
           b \<le> \<lfloor>real W * (of_int m * 2 powi e)\<rfloor> + 1"
proof -
  define x :: real where "x = real W * (of_int m * 2 powi e)"
  have x0: "0 \<le> x" using m by (simp add: x_def)
  have le53: "x \<le> 2 ^ 53" using le by (simp add: x_def)
  obtain rw qw r q where w: "0 \<le> rw" "of_int rw * (2::real) powi qw = real W"
    and f: "round_to_double (rw * m) (qw + e) = Finite r q" and r: "0 \<le> r"
    and b: "boundary_x W (Finite m e) = Inr \<lfloor>of_int r * (2::real) powi q\<rfloor>"
    using boundary_x_nonneg[OF W m] le53 unfolding x_def by blast
  have val: "of_int (rw * m) * (2::real) powi (qw + e) = x"
    unfolding x_def by (rule boundary_x_unique_form[OF w(2)])
  have p: "0 \<le> rw * m" using w(1) m by simp
  define k where "k = \<lfloor>x\<rfloor>"
  have k0: "0 \<le> k" using x0 by (simp add: k_def)
  have kx: "of_int k \<le> x" "x \<le> of_int (k + 1)" unfolding k_def by linarith+
  have "of_int k \<le> (2::real) ^ 52" using kx(1) le by (simp add: x_def)
  then have "(of_int k :: real) \<le> of_int (2 ^ 52)" by simp
  then have k52: "k \<le> 2 ^ 52" by (simp only: of_int_le_iff)
  then have kb: "k < 2 ^ 53" "k + 1 < 2 ^ 53" by simp_all
  obtain r1 q1 where f1: "round_to_double k 0 = Finite r1 q1"
    and v1: "of_int r1 * (2::real) powi q1 = of_int k"
    using round_to_double_int[OF k0 kb(1)] by blast
  obtain r2 q2 where f2: "round_to_double (k + 1) 0 = Finite r2 q2"
    and v2: "of_int r2 * (2::real) powi q2 = of_int (k + 1)"
    using round_to_double_int[OF _ kb(2)] k0 by auto
  have c1: "of_int k * (2::real) powi 0 \<le> of_int (rw * m) * 2 powi (qw + e)"
    unfolding val using kx(1) by simp
  have c2: "of_int (rw * m) * (2::real) powi (qw + e) \<le> of_int (k + 1) * 2 powi 0"
    unfolding val using kx(2) by simp
  have k1: "0 \<le> k + 1" using k0 by simp
  have "of_int r1 * (2::real) powi q1 \<le> of_int r * 2 powi q"
    by (rule round_to_double_mono[OF k0 p c1 f1 f])
  then have lo: "of_int k \<le> of_int r * (2::real) powi q" by (simp only: v1)
  have "of_int r * (2::real) powi q \<le> of_int r2 * 2 powi q2"
    by (rule round_to_double_mono[OF p k1 c2 f f2])
  then have hi: "of_int r * (2::real) powi q \<le> of_int (k + 1)" by (simp only: v2)
  have "k \<le> \<lfloor>of_int r * (2::real) powi q\<rfloor>" using lo by (simp add: le_floor_iff)
  moreover have "\<lfloor>of_int r * (2::real) powi q\<rfloor> \<le> k + 1"
    using hi floor_mono[OF hi] by (simp only: floor_of_int)
  ultimately show ?thesis using b unfolding k_def x_def by blast
qed

lemma boundary_x_mono:
  assumes W: "W < 2 ^ 31" and m1: "0 \<le> m1"
    and le: "of_int m1 * (2::real) powi e1 \<le> of_int m2 * 2 powi e2"
    and top: "real W * (of_int m2 * 2 powi e2) \<le> 2 ^ 53"
  shows "\<exists>b1 b2. boundary_x W (Finite m1 e1) = Inr b1 \<and> boundary_x W (Finite m2 e2) = Inr b2 \<and>
           b1 \<le> b2"
proof -
  have m2: "0 \<le> m2"
  proof (rule ccontr)
    assume "\<not> 0 \<le> m2"
    then have "of_int m2 * (2::real) powi e2 < 0" by (simp add: mult_neg_pos)
    moreover have "0 \<le> of_int m1 * (2::real) powi e1" using m1 by simp
    ultimately show False using le by linarith
  qed
  have le': "real W * (of_int m1 * 2 powi e1) \<le> real W * (of_int m2 * 2 powi e2)"
    using le by (intro mult_left_mono) simp_all
  then have top1: "real W * (of_int m1 * 2 powi e1) \<le> 2 ^ 53" using top by linarith
  obtain rw qw r1 q1 where w: "0 \<le> rw" "of_int rw * (2::real) powi qw = real W"
    and f1: "round_to_double (rw * m1) (qw + e1) = Finite r1 q1"
    and b1: "boundary_x W (Finite m1 e1) = Inr \<lfloor>of_int r1 * (2::real) powi q1\<rfloor>"
    using boundary_x_nonneg[OF W m1 top1] by blast
  obtain rw' qw' r2 q2 where w': "0 \<le> rw'" "of_int rw' * (2::real) powi qw' = real W"
    and f2: "round_to_double (rw' * m2) (qw' + e2) = Finite r2 q2"
    and b2: "boundary_x W (Finite m2 e2) = Inr \<lfloor>of_int r2 * (2::real) powi q2\<rfloor>"
    using boundary_x_nonneg[OF W m2 top] by blast
  have "of_int r1 * (2::real) powi q1 \<le> of_int r2 * 2 powi q2"
  proof (rule round_to_double_mono[OF _ _ _ f1 f2])
    show "0 \<le> rw * m1" using w(1) m1 by simp
    show "0 \<le> rw' * m2" using w'(1) m2 by simp
    show "of_int (rw * m1) * (2::real) powi (qw + e1) \<le> of_int (rw' * m2) * 2 powi (qw' + e2)"
      unfolding boundary_x_unique_form[OF w(2)] boundary_x_unique_form[OF w'(2)] by (rule le')
  qed
  then have "\<lfloor>of_int r1 * (2::real) powi q1\<rfloor> \<le> \<lfloor>of_int r2 * (2::real) powi q2\<rfloor>"
    by (rule floor_mono)
  then show ?thesis using b1 b2 by blast
qed

lemma round_to_double_negate:
  assumes "0 < m" and "round_to_double m e = Finite r q"
  shows "round_to_double (- m) e = Finite (- r) q"
proof -
  define q' where "q' = max (bit_length m + e - 53) (- 1074)"
  define r' where "r' = round_half_even ((of_int m * 2 powi e) / 2 powi q')"
  have p: "round_to_double m e = (if bit_length r' + q' > 1024 then PosInf else Finite r' q')"
    by (rule round_to_double_pos[OF assms(1) q'_def r'_def])
  have n: "round_to_double (- m) e = (if bit_length r' + q' > 1024 then NegInf else Finite (- r') q')"
    by (rule round_to_double_neg) (use assms(1) in \<open>simp_all add: q'_def r'_def\<close>)
  show ?thesis using p n assms(2) by (simp split: if_splits)
qed

lemma boundary_x_zero:
  assumes "W < 2 ^ 31"
  shows "boundary_x W (Finite 0 e) = Inr 0"
proof -
  obtain rw qw where "float_of_int (int W) = Inr (Finite rw qw)"
    using float_of_int_exact[OF assms] by blast
  then show ?thesis by (simp add: boundary_x_def round_to_double_def)
qed

text \<open>When the exact product is an integer, it is the boundary column.\<close>

lemma boundary_x_integer_product:
  assumes W: "W < 2 ^ 31" and m: "0 \<le> m"
    and eq: "real W * (of_int m * 2 powi e) = of_int n" and n: "n < 2 ^ 53"
  shows "boundary_x W (Finite m e) = Inr n"
proof -
  have n0: "0 \<le> n"
  proof -
    have "0 \<le> real W * (of_int m * 2 powi e)" using m by simp
    then have "(0::real) \<le> of_int n" by (simp only: eq)
    then show ?thesis by simp
  qed
  have "(of_int n :: real) < of_int (2 ^ 53)" using n by (simp only: of_int_less_iff)
  then have le: "real W * (of_int m * 2 powi e) \<le> 2 ^ 53" by (simp add: eq)
  obtain rw qw r q where w: "0 \<le> rw" "of_int rw * (2::real) powi qw = real W"
    and f: "round_to_double (rw * m) (qw + e) = Finite r q" and r: "0 \<le> r"
    and b: "boundary_x W (Finite m e) = Inr \<lfloor>of_int r * (2::real) powi q\<rfloor>"
    using boundary_x_nonneg[OF W m le] by blast
  have val: "of_int (rw * m) * (2::real) powi (qw + e) = of_int n"
    using boundary_x_unique_form[OF w(2), of m e] eq by simp
  have p: "0 \<le> rw * m" using w(1) m by simp
  obtain r1 q1 where f1: "round_to_double n 0 = Finite r1 q1"
    and v1: "of_int r1 * (2::real) powi q1 = of_int n"
    using round_to_double_int[OF n0 n] by blast
  have c1: "of_int n * (2::real) powi 0 \<le> of_int (rw * m) * 2 powi (qw + e)"
    unfolding val by simp
  have c2: "of_int (rw * m) * (2::real) powi (qw + e) \<le> of_int n * 2 powi 0"
    unfolding val by simp
  have "of_int r1 * (2::real) powi q1 \<le> of_int r * 2 powi q"
    by (rule round_to_double_mono[OF n0 p c1 f1 f])
  moreover have "of_int r * (2::real) powi q \<le> of_int r1 * 2 powi q1"
    by (rule round_to_double_mono[OF p n0 c2 f f1])
  ultimately have "of_int r * (2::real) powi q = of_int n" using v1 by linarith
  then have "\<lfloor>of_int r * (2::real) powi q\<rfloor> = n" by (simp only: floor_of_int)
  then show ?thesis using b by simp
qed

lemma boundary_x_one:
  assumes "W < 2 ^ 31"
  shows "boundary_x W (Finite 1 0) = Inr (int W)"
proof -
  have "int W < 2 ^ 31" using assms by (metis of_nat_less_iff of_nat_numeral of_nat_power)
  then have "int W < 2 ^ 53" by simp
  then show ?thesis by (intro boundary_x_integer_product[OF assms]) simp_all
qed

lemma width_real_bound:
  assumes "W < 2 ^ 31"
  shows "real W \<le> 2 ^ 31"
proof -
  have "real W < real (2 ^ 31)" using assms by (simp only: of_nat_less_iff)
  then show ?thesis by simp
qed

text \<open>A slider position in [0, 1].\<close>

lemma boundary_x_unit:
  assumes W: "W < 2 ^ 31" and m: "0 \<le> m" and le: "of_int m * (2::real) powi e \<le> 1"
  shows "\<exists>b. boundary_x W (Finite m e) = Inr b \<and> 0 \<le> b \<and> b \<le> int W \<and>
           \<lfloor>real W * (of_int m * 2 powi e)\<rfloor> \<le> b \<and>
           b \<le> \<lfloor>real W * (of_int m * 2 powi e)\<rfloor> + 1"
proof -
  have xw: "real W * (of_int m * 2 powi e) \<le> real W * 1"
    using le by (intro mult_left_mono) simp_all
  then have x31: "real W * (of_int m * 2 powi e) \<le> 2 ^ 31" using width_real_bound[OF W] by simp
  then have x52: "real W * (of_int m * 2 powi e) \<le> 2 ^ 52" by simp
  obtain b where b: "boundary_x W (Finite m e) = Inr b"
    "\<lfloor>real W * (of_int m * 2 powi e)\<rfloor> \<le> b" "b \<le> \<lfloor>real W * (of_int m * 2 powi e)\<rfloor> + 1"
    using boundary_x_bounds[OF W m x52] by blast
  have "0 \<le> real W * (of_int m * 2 powi e)" using m by simp
  then have "0 \<le> \<lfloor>real W * (of_int m * 2 powi e)\<rfloor>" by simp
  then have b0: "0 \<le> b" using b(2) by linarith
  have "real W * (of_int 1 * 2 powi 0) \<le> 2 ^ 53" using width_real_bound[OF W] by simp
  then obtain b1 b2 where "boundary_x W (Finite m e) = Inr b1" "boundary_x W (Finite 1 0) = Inr b2"
    "b1 \<le> b2"
    using boundary_x_mono[OF W m, of e 1 0] le by auto
  then have "b \<le> int W" using b(1) boundary_x_one[OF W] by simp
  then show ?thesis using b b0 by blast
qed

text \<open>A slider position of at least 1 (and not astronomically large).\<close>

lemma boundary_x_ge_width:
  assumes W: "W < 2 ^ 31" and ge: "1 \<le> of_int m * (2::real) powi e"
    and le: "of_int m * (2::real) powi e \<le> 2"
  shows "\<exists>b. boundary_x W (Finite m e) = Inr b \<and> int W \<le> b"
proof -
  have m: "0 \<le> m"
  proof (rule ccontr)
    assume "\<not> 0 \<le> m"
    then have "of_int m * (2::real) powi e < 0" by (simp add: mult_neg_pos)
    then show False using ge by linarith
  qed
  have "real W * (of_int m * 2 powi e) \<le> real W * 2"
    using le by (intro mult_left_mono) simp_all
  then have x52: "real W * (of_int m * 2 powi e) \<le> 2 ^ 52" using width_real_bound[OF W] by simp
  obtain b where b: "boundary_x W (Finite m e) = Inr b"
    "\<lfloor>real W * (of_int m * 2 powi e)\<rfloor> \<le> b"
    using boundary_x_bounds[OF W m x52] by blast
  have "real W * 1 \<le> real W * (of_int m * 2 powi e)"
    using ge by (intro mult_left_mono) simp_all
  then have "real_of_int (int W) \<le> real W * (of_int m * 2 powi e)" by simp
  then have "int W \<le> \<lfloor>real W * (of_int m * 2 powi e)\<rfloor>" by (simp only: le_floor_iff)
  then show ?thesis using b by auto
qed

text \<open>The slider position -0.5.\<close>

lemma boundary_x_minus_half:
  assumes W: "W < 2 ^ 31"
  shows "boundary_x W (Finite (- 1) (- 1)) = Inr (- int (W div 2))"
proof -
  obtain rw qw where w: "float_of_int (int W) = Inr (Finite rw qw)" "0 \<le> rw"
    "of_int rw * (2::real) powi qw = real W"
    using float_of_int_exact[OF W] by blast
  have bx: "boundary_x W (Finite (- 1) (- 1)) = py_int (round_to_double (- rw) (qw - 1))"
    using w(1) by (simp add: boundary_x_def)
  show ?thesis
  proof (cases "rw = 0")
    case True
    then have "W = 0" using w(3) by simp
    then show ?thesis using bx True by (simp add: round_to_double_def)
  next
    case False
    then have rp: "0 < rw" using w(2) by simp
    have Wp: "0 < int W"
    proof (rule ccontr)
      assume "\<not> 0 < int W"
      then have "real W = 0" by simp
      then show False using w(3) rp by simp
    qed
    have "(2::real) powi (qw - 1) = 2 powi qw * 2 powi (- 1)"
      using power_int_add[of "2::real" qw "- 1"] by simp
    then have "of_int rw * (2::real) powi (qw - 1) = (of_int rw * 2 powi qw) * 2 powi (- 1)"
      by simp
    then have val: "of_int rw * (2::real) powi (qw - 1) = of_int (int W) * 2 powi (- 1)"
      by (simp only: w(3) of_int_of_nat_eq)
    have "of_int rw * (2::real) powi (qw - 1) \<le> 2 ^ 53"
      unfolding val using width_real_bound[OF W] by simp
    then have "of_int rw * (2::real) powi (qw - 1) \<le> 2 powi 1023" by (rule two_powi_1023_ge)
    then obtain r q where f: "round_to_double rw (qw - 1) = Finite r q" and r: "0 \<le> r"
      using round_to_double_finite[of rw "qw - 1"] w(2) by blast
    have "(of_int (int W) :: real) < 2 powi 53"
      using width_real_bound[OF W] by simp
    then have "(2::real) powi (bit_length (int W) - 1) < 2 powi 53"
      using bit_length_bounds(1)[OF Wp] by linarith
    then have bl: "bit_length (int W) \<le> 53"
      using two_powi_less_imp[of "bit_length (int W) - 1" 53] by simp
    have ex: "of_int r * (2::real) powi q = of_int (int W) * 2 powi (- 1)"
      by (rule round_to_double_exact[OF rp Wp val bl _ f]) simp
    have "round_to_double (- rw) (qw - 1) = Finite (- r) q"
      by (rule round_to_double_negate[OF rp f])
    then have "boundary_x W (Finite (- 1) (- 1)) = Inr (- \<lfloor>of_int r * (2::real) powi q\<rfloor>)"
      using bx py_int_nonpos[OF r, of q] by simp
    moreover have "\<lfloor>of_int r * (2::real) powi q\<rfloor> = int (W div 2)"
    proof -
      have e1: "of_int r * (2::real) powi q = real W / real 2" unfolding ex by simp
      have "\<lfloor>real W / real 2\<rfloor> = int (W div 2)" by (rule floor_divide_of_nat_eq)
      then show ?thesis by (simp only: e1)
    qed
    ultimately show ?thesis by simp
  qed
qed

section \<open>Every pixel of the result\<close>

text \<open>The compositor after its first assignment.\<close>

lemma create_stages:
  assumes "boundary_x (min (ncols image1) (ncols image2)) slider_position = Inr b"
    and "set_cols_from b
           (crop (min (nrows image1) (nrows image2)) (min (ncols image1) (ncols image2)) image1)
           (crop (min (nrows image1) (nrows image2)) (min (ncols image1) (ncols image2)) image2) = Inr r1"
  shows "create_before_after_comparison image1 image2 slider_position =
           (if 0 < b \<and> b < int (min (ncols image1) (ncols image2)) - 1
            then fill_cols (max 0 (b - 3 div 2))
                   (min (int (min (ncols image1) (ncols image2))) (b + 3 div 2)) [255, 255, 255] r1
            else Inr r1)"
  using assms by (simp add: create_before_after_comparison_def Let_def)

lemma create_boundary_error:
  assumes "boundary_x (min (ncols image1) (ncols image2)) slider_position = Inl err"
  shows "create_before_after_comparison image1 image2 slider_position = Inl err"
  using assms by (simp add: create_before_after_comparison_def Let_def)

lemma create_shape:
  assumes "create_before_after_comparison image1 image2 f = Inr r"
  shows "nrows r = min (nrows image1) (nrows image2) \<and> ncols r = min (ncols image1) (ncols image2)"
  using assms
  by (auto simp: create_before_after_comparison_def set_cols_from_def fill_cols_def Let_def
      split: if_splits sum.splits)

lemma create_pixels:
  assumes wa: "wf_array image1" and wb: "wf_array image2"
    and ch: "nchan image1 = nchan image2"
    and H: "H = min (nrows image1) (nrows image2)"
    and W: "W = min (ncols image1) (ncols image2)"
    and b: "boundary_x W slider_position = Inr b"
    and ok: "nchan image1 = 3 \<or> \<not> (0 < b \<and> b < int W - 1)"
  shows "\<exists>r. create_before_after_comparison image1 image2 slider_position = Inr r \<and>
           wf_array r \<and> nrows r = H \<and> ncols r = W \<and> nchan r = nchan image1 \<and>
           (\<forall>y < H. \<forall>c < W.
              pixel_at r y c =
                (if 0 < b \<and> b < int W - 1 \<and> b - 1 \<le> int c \<and> int c < b + 1
                 then [255, 255, 255]
                 else if c < slice_index W b then pixel_at image1 y c
                 else pixel_at image2 y c))"
proof -
  define D where "D = crop H W image1"
  define S where "S = crop H W image2"
  have wD: "wf_array D" and wS: "wf_array S"
    using wa wb by (simp_all add: D_def S_def wf_crop)
  have shD: "nrows D = H" "ncols D = W" "nchan D = nchan image1"
    by (simp_all add: D_def H W)
  have shS: "nrows S = H" "ncols S = W" "nchan S = nchan image1"
    by (simp_all add: S_def H W ch)
  have pD: "pixel_at D y c = pixel_at image1 y c" if "y < H" "c < W" for y c
    unfolding D_def using that by (intro crop_pixel[OF wa]) (simp_all add: H W)
  have pS: "pixel_at S y c = pixel_at image2 y c" if "y < H" "c < W" for y c
    unfolding S_def using that by (intro crop_pixel[OF wb]) (simp_all add: H W)
  obtain r1 where r1: "set_cols_from b D S = Inr r1" "wf_array r1"
      "nrows r1 = H" "ncols r1 = W" "nchan r1 = nchan image1"
    and p1: "\<And>y c. y < H \<Longrightarrow> c < W \<Longrightarrow>
        pixel_at r1 y c = (if c < slice_index W b then pixel_at D y c else pixel_at S y c)"
    using set_cols_from_pixels[OF wD wS, of b] shD shS by auto
  have unfold: "create_before_after_comparison image1 image2 slider_position =
      (if 0 < b \<and> b < int W - 1
       then fill_cols (max 0 (b - 3 div 2)) (min (int W) (b + 3 div 2)) [255, 255, 255] r1
       else Inr r1)"
    using create_stages[of image1 image2 slider_position b r1] b r1(1)
    by (simp add: D_def S_def H W)
  have q1: "pixel_at r1 y c = (if c < slice_index W b then pixel_at image1 y c else pixel_at image2 y c)"
    if "y < H" "c < W" for y c
    using p1[OF that] pD[OF that] pS[OF that] by simp
  show ?thesis
  proof (cases "0 < b \<and> b < int W - 1")
    case False
    have res: "create_before_after_comparison image1 image2 slider_position = Inr r1"
      using unfold False by simp
    have "\<forall>y < H. \<forall>c < W. pixel_at r1 y c =
            (if 0 < b \<and> b < int W - 1 \<and> b - 1 \<le> int c \<and> int c < b + 1
             then [255, 255, 255]
             else if c < slice_index W b then pixel_at image1 y c
             else pixel_at image2 y c)"
      using False q1 by auto
    then show ?thesis using res r1(2-5) by blast
  next
    case True
    then have c3: "nchan r1 = 3" using ok r1(5) by simp
    have se: "max 0 (b - 3 div 2) = b - 1" "min (int W) (b + 3 div 2) = b + 1"
      using True by simp_all
    have rng: "0 \<le> b - 1" "b - 1 \<le> b + 1" "b + 1 \<le> int (ncols r1)"
      using True r1(4) by simp_all
    obtain r2 where r2: "fill_cols (b - 1) (b + 1) [255, 255, 255] r1 = Inr r2" "wf_array r2"
        "nrows r2 = H" "ncols r2 = W" "nchan r2 = nchan image1"
      and p2: "\<And>y c. y < H \<Longrightarrow> c < W \<Longrightarrow>
          pixel_at r2 y c = (if b - 1 \<le> int c \<and> int c < b + 1 then [255, 255, 255] else pixel_at r1 y c)"
      using fill_cols_pixels[OF r1(2) c3 rng] r1(3-5) by auto
    have res: "create_before_after_comparison image1 image2 slider_position = Inr r2"
      using unfold True r2(1) by (simp add: se)
    have "\<forall>y < H. \<forall>c < W. pixel_at r2 y c =
            (if 0 < b \<and> b < int W - 1 \<and> b - 1 \<le> int c \<and> int c < b + 1
             then [255, 255, 255]
             else if c < slice_index W b then pixel_at image1 y c
             else pixel_at image2 y c)"
      using True p2 q1 by auto
    then show ?thesis using res r2(2-5) by blast
  qed
qed

text \<open>The marker colour has three elements: on any other channel count drawing it raises.\<close>

lemma create_raises:
  assumes ch: "nchan image1 = nchan image2"
    and W: "W = min (ncols image1) (ncols image2)"
    and b: "boundary_x W slider_position = Inr b"
    and mk: "0 < b" "b < int W - 1" and c3: "nchan image1 \<noteq> 3"
  shows "create_before_after_comparison image1 image2 slider_position = Inl ValueError"
  using assms
  by (simp add: create_before_after_comparison_def set_cols_from_def fill_cols_def Let_def)

lemma create_returns_iff:
  assumes wa: "wf_array image1" and wb: "wf_array image2"
    and ch: "nchan image1 = nchan image2"
    and W: "W = min (ncols image1) (ncols image2)"
    and b: "boundary_x W slider_position = Inr b"
  shows "(\<exists>r. create_before_after_comparison image1 image2 slider_position = Inr r) \<longleftrightarrow>
         (nchan image1 = 3 \<or> \<not> (0 < b \<and> b < int W - 1))"
proof
  assume "\<exists>r. create_before_after_comparison image1 image2 slider_position = Inr r"
  then show "nchan image1 = 3 \<or> \<not> (0 < b \<and> b < int W - 1)"
    using create_raises[OF ch W b] by auto
next
  assume "nchan image1 = 3 \<or> \<not> (0 < b \<and> b < int W - 1)"
  then show "\<exists>r. create_before_after_comparison image1 image2 slider_position = Inr r"
    using create_pixels[OF wa wb ch refl W b] by blast
qed

section \<open>The result on grids of one size\<close>

lemma wf_width: "wf_array a \<Longrightarrow> ncols a < 2 ^ 31"
  by (simp add: wf_array_def)

text \<open>Everything about a call with a slider position in [0, 1] on grids of one size.\<close>

lemma create_pixels_unit:
  assumes wa: "wf_array image1" and wb: "wf_array image2"
    and sh: "nrows image1 = H" "nrows image2 = H" "ncols image1 = W" "ncols image2 = W"
    and ch: "nchan image1 = nchan image2"
    and m: "0 \<le> m" and le: "double_value (Finite m e) \<le> 1"
  shows "\<exists>b. boundary_x W (Finite m e) = Inr b \<and> 0 \<le> b \<and> b \<le> int W \<and>
           \<lfloor>real W * double_value (Finite m e)\<rfloor> \<le> b \<and>
           b \<le> \<lfloor>real W * double_value (Finite m e)\<rfloor> + 1 \<and>
           ((\<exists>r. create_before_after_comparison image1 image2 (Finite m e) = Inr r) \<longleftrightarrow>
              (nchan image1 = 3 \<or> \<not> (0 < b \<and> b < int W - 1))) \<and>
           (\<forall>r. create_before_after_comparison image1 image2 (Finite m e) = Inr r \<longrightarrow>
              wf_array r \<and> nrows r = H \<and> ncols r = W \<and> nchan r = nchan image1 \<and>
              (\<forall>y < H. \<forall>c < W.
                 pixel_at r y c =
                   (if 0 < b \<and> b < int W - 1 \<and> b - 1 \<le> int c \<and> int c < b + 1
                    then [255, 255, 255]
                    else if int c < b then pixel_at image1 y c
                    else pixel_at image2 y c)))"
proof -
  have W31: "W < 2 ^ 31" using wf_width[OF wa] sh by simp
  have le': "of_int m * (2::real) powi e \<le> 1" using le by simp
  obtain b where b: "boundary_x W (Finite m e) = Inr b" "0 \<le> b" "b \<le> int W"
    "\<lfloor>real W * (of_int m * 2 powi e)\<rfloor> \<le> b" "b \<le> \<lfloor>real W * (of_int m * 2 powi e)\<rfloor> + 1"
    using boundary_x_unit[OF W31 m le'] by blast
  have Hm: "H = min (nrows image1) (nrows image2)" and Wm: "W = min (ncols image1) (ncols image2)"
    using sh by simp_all
  have si: "c < slice_index W b \<longleftrightarrow> int c < b" for c
    using b(2,3) by (auto simp: slice_index_def)
  have iff: "(\<exists>r. create_before_after_comparison image1 image2 (Finite m e) = Inr r) \<longleftrightarrow>
             (nchan image1 = 3 \<or> \<not> (0 < b \<and> b < int W - 1))"
    by (rule create_returns_iff[OF wa wb ch Wm b(1)])
  have px: "wf_array r \<and> nrows r = H \<and> ncols r = W \<and> nchan r = nchan image1 \<and>
              (\<forall>y < H. \<forall>c < W.
                 pixel_at r y c =
                   (if 0 < b \<and> b < int W - 1 \<and> b - 1 \<le> int c \<and> int c < b + 1
                    then [255, 255, 255]
                    else if int c < b then pixel_at image1 y c
                    else pixel_at image2 y c))"
    if r: "create_before_after_comparison image1 image2 (Finite m e) = Inr r" for r
  proof -
    have ok: "nchan image1 = 3 \<or> \<not> (0 < b \<and> b < int W - 1)" using iff r by blast
    show ?thesis using create_pixels[OF wa wb ch Hm Wm b(1) ok] r by (simp only: si) auto
  qed
  show ?thesis using b iff px by (simp only: double_value.simps) blast
qed

lemma create_all_image1:
  assumes wa: "wf_array image1" and wb: "wf_array image2"
    and sh: "nrows image1 = nrows image2" "ncols image1 = ncols image2"
    and ch: "nchan image1 = nchan image2"
    and b: "boundary_x (ncols image1) f = Inr b" "int (ncols image1) \<le> b"
  shows "create_before_after_comparison image1 image2 f = Inr image1"
proof -
  define H where "H = nrows image1"
  define W where "W = ncols image1"
  have H: "H = min (nrows image1) (nrows image2)" and W: "W = min (ncols image1) (ncols image2)"
    using sh by (simp_all add: H_def W_def)
  have bW: "int W \<le> b" and bx: "boundary_x W f = Inr b" using b by (simp_all add: W_def)
  then have ok: "nchan image1 = 3 \<or> \<not> (0 < b \<and> b < int W - 1)" by simp
  have si: "slice_index W b = W" using bW by (simp add: slice_index_def)
  obtain r where r: "create_before_after_comparison image1 image2 f = Inr r"
      "wf_array r" "nrows r = H" "ncols r = W" "nchan r = nchan image1"
    and px: "\<And>y c. y < H \<Longrightarrow> c < W \<Longrightarrow> pixel_at r y c = pixel_at image1 y c"
    using create_pixels[OF wa wb ch H W bx ok] bW si by auto
  have "r = image1"
    using r(2) wa by (rule array_eqI) (simp_all add: r H_def W_def px)
  then show ?thesis using r(1) by simp
qed

lemma create_all_image2:
  assumes wa: "wf_array image1" and wb: "wf_array image2"
    and sh: "nrows image1 = nrows image2" "ncols image1 = ncols image2"
    and ch: "nchan image1 = nchan image2"
    and b: "boundary_x (ncols image1) f = Inr 0"
  shows "create_before_after_comparison image1 image2 f = Inr image2"
proof -
  define H where "H = nrows image1"
  define W where "W = ncols image1"
  have H: "H = min (nrows image1) (nrows image2)" and W: "W = min (ncols image1) (ncols image2)"
    using sh by (simp_all add: H_def W_def)
  have bx: "boundary_x W f = Inr 0" using b by (simp add: W_def)
  have ok: "nchan image1 = 3 \<or> \<not> (0 < (0::int) \<and> (0::int) < int W - 1)" by simp
  have si: "slice_index W 0 = 0" by (simp add: slice_index_def)
  obtain r where r: "create_before_after_comparison image1 image2 f = Inr r"
      "wf_array r" "nrows r = H" "ncols r = W" "nchan r = nchan image1"
    and px: "\<And>y c. y < H \<Longrightarrow> c < W \<Longrightarrow> pixel_at r y c = pixel_at image2 y c"
    using create_pixels[OF wa wb ch H W bx ok] si by auto
  have "r = image2"
    using r(2) wb by (rule array_eqI) (simp_all add: r H_def W_def px sh ch)
  then show ?thesis using r(1) by simp
qed

section \<open>The store version computes the same grid\<close>

lemma create_st_agrees:
  assumes "image1 < next_addr h" and "image2 < next_addr h"
  shows "case create_before_after_comparison_st image1 image2 f h of
           (Inl err, h') \<Rightarrow>
             create_before_after_comparison (cells h image1) (cells h image2) f = Inl err
         | (Inr p, h') \<Rightarrow>
             create_before_after_comparison (cells h image1) (cells h image2) f = Inr (cells h' p)"
  using assms
  by (simp add: create_before_after_comparison_st_def create_before_after_comparison_def
      alloc_def store_def Let_def split: sum.splits)

section \<open>The example grids are well formed\<close>

lemma wf_examples:
  "wf_array rgb_a5" "wf_array rgb_b5"
  "wf_array rgb_a6" "wf_array rgb_b6" "wf_array rgb_a10" "wf_array rgb_b10"
  "wf_array rgba_a3" "wf_array rgba_b3" "wf_array rgb_tall" "wf_array rgb_wide"
  by (simp_all add: wf_array_def rgb_a5_def rgb_b5_def rgb_a6_def rgb_b6_def rgb_a10_def
      rgb_b10_def rgba_a3_def rgba_b3_def rgb_tall_def rgb_wide_def)

section \<open>Properties of the compositor\<close>

text \<open>
  Claim C1 (marker coverage). With \<open>line_thickness = 3\<close> the marker should cover the
  three columns \<open>boundary_x - 1\<close>, \<open>boundary_x\<close>, \<open>boundary_x + 1\<close>. On two 6-by-1
  grids at slider position 0.5 the boundary column is 3, strictly between 1 and 4; the
  result is white in columns 2 and 3 only, and column 4 still holds the second image's
  pixel: the slice \<open>start_x:end_x\<close> excludes \<open>end_x = boundary_x + 1\<close>.
\<close>

theorem marker_covers_two_columns:
  "create_before_after_comparison rgb_a6 rgb_b6 slider_0_5 =
     Inr \<lparr>nrows = 1, ncols = 6, nchan = 3,
          rows = [[[1, 1, 1], [1, 1, 1], [255, 255, 255], [255, 255, 255],
                   [9, 9, 9], [9, 9, 9]]]\<rparr>"
  by code_simp

text \<open>
  Claim C2 (out-of-range slider positions). Nothing clamps the slider position. On grids
  of one size, a position of 1.7 gives the same grid as 1.0, since the boundary column is
  at or past the width. A position of -0.5 gives the boundary column \<open>- (W div 2)\<close>,
  which the slice counts from the right end: for \<open>W \<ge> 2\<close> the first \<open>W - W div 2\<close> columns
  stay those of the first image and only the last \<open>W div 2\<close> come from the second; no
  marker is drawn.
\<close>

theorem fractions_outside_unit_interval:
  assumes wa: "wf_array image1" and wb: "wf_array image2"
    and sh: "nrows image1 = H" "nrows image2 = H" "ncols image1 = W" "ncols image2 = W"
    and ch: "nchan image1 = nchan image2"
  shows "create_before_after_comparison image1 image2 slider_1_7 =
           create_before_after_comparison image1 image2 slider_1 \<and>
         (\<exists>r. create_before_after_comparison image1 image2 slider_minus_0_5 = Inr r \<and>
            (\<forall>y < H. \<forall>c < W.
               pixel_at r y c =
                 (if 2 \<le> W \<and> c < W - W div 2 then pixel_at image1 y c
                  else pixel_at image2 y c)))"
proof -
  have sh': "nrows image1 = nrows image2" "ncols image1 = ncols image2" using sh by simp_all
  have W31: "ncols image1 < 2 ^ 31" by (rule wf_width[OF wa])
  obtain b where b: "boundary_x (ncols image1) slider_1_7 = Inr b" "int (ncols image1) \<le> b"
    unfolding slider_1_7_def
    using boundary_x_ge_width[OF W31, of 7656119366529843 "- 52"] by auto
  have "create_before_after_comparison image1 image2 slider_1_7 = Inr image1"
    by (rule create_all_image1[OF wa wb sh' ch b])
  moreover have "create_before_after_comparison image1 image2 slider_1 = Inr image1"
    by (rule create_all_image1[OF wa wb sh' ch, of _ "int (ncols image1)"])
      (simp_all add: slider_1_def boundary_x_one[OF W31])
  moreover have "\<exists>r. create_before_after_comparison image1 image2 slider_minus_0_5 = Inr r \<and>
            (\<forall>y < H. \<forall>c < W.
               pixel_at r y c =
                 (if 2 \<le> W \<and> c < W - W div 2 then pixel_at image1 y c
                  else pixel_at image2 y c))"
  proof -
    define b where "b = - int (W div 2)"
    have b: "boundary_x W slider_minus_0_5 = Inr b"
      unfolding slider_minus_0_5_def b_def using boundary_x_minus_half[OF W31] sh by simp
    have Hm: "H = min (nrows image1) (nrows image2)" and Wm: "W = min (ncols image1) (ncols image2)"
      using sh by simp_all
    have nb: "\<not> 0 < b" by (simp add: b_def)
    then have ok: "nchan image1 = 3 \<or> \<not> (0 < b \<and> b < int W - 1)" by simp
    have si: "c < slice_index W b \<longleftrightarrow> 2 \<le> W \<and> c < W - W div 2" for c
    proof (cases "2 \<le> W")
      case True
      then have "b < 0" by (simp add: b_def)
      moreover have "nat (int W - int (W div 2)) = W - W div 2" by simp
      ultimately show ?thesis using True by (simp add: slice_index_def b_def)
    next
      case False
      then have "W div 2 = 0" by simp
      then show ?thesis using False by (simp add: slice_index_def b_def)
    qed
    obtain r where r: "create_before_after_comparison image1 image2 slider_minus_0_5 = Inr r"
      and px: "\<And>y c. y < H \<Longrightarrow> c < W \<Longrightarrow>
        pixel_at r y c =
          (if c < slice_index W b then pixel_at image1 y c else pixel_at image2 y c)"
      using create_pixels[OF wa wb ch Hm Wm b ok] nb by auto
    have "\<forall>y < H. \<forall>c < W.
            pixel_at r y c =
              (if 2 \<le> W \<and> c < W - W div 2 then pixel_at image1 y c
               else pixel_at image2 y c)"
      using px by (simp only: si) simp
    then show ?thesis using r by blast
  qed
  ultimately show ?thesis by simp
qed

theorem fractions_outside_unit_interval_witness:
  "wf_array rgb_a6 \<and> wf_array rgb_b6 \<and>
   nrows rgb_a6 = 1 \<and> nrows rgb_b6 = 1 \<and> ncols rgb_a6 = 6 \<and> ncols rgb_b6 = 6 \<and>
   nchan rgb_a6 = nchan rgb_b6 \<and>
   create_before_after_comparison rgb_a6 rgb_b6 slider_1_7 =
     create_before_after_comparison rgb_a6 rgb_b6 slider_1 \<and>
   (\<exists>r. create_before_after_comparison rgb_a6 rgb_b6 slider_minus_0_5 = Inr r \<and>
      (\<forall>y < (1::nat). \<forall>c < (6::nat).
         pixel_at r y c =
           (if 2 \<le> (6::nat) \<and> c < 6 - 6 div 2 then pixel_at rgb_a6 y c
            else pixel_at rgb_b6 y c)))"
proof -
  have h: "wf_array rgb_a6" "wf_array rgb_b6"
    "nrows rgb_a6 = 1" "nrows rgb_b6 = 1" "ncols rgb_a6 = 6" "ncols rgb_b6 = 6"
    "nchan rgb_a6 = nchan rgb_b6"
    by (simp_all add: wf_examples) (simp_all add: rgb_a6_def rgb_b6_def)
  show ?thesis using h fractions_outside_unit_interval[OF h] by blast
qed

text \<open>
  On the 6-by-1 example grids, position -0.5 and position 0.0 give different grids.
\<close>

theorem negative_fraction_not_clamped:
  "create_before_after_comparison rgb_a6 rgb_b6 slider_minus_0_5 \<noteq>
   create_before_after_comparison rgb_a6 rgb_b6 slider_0"
  by code_simp

text \<open>
  Claim C3 (totality). The marker colour is the three-element list \<open>[255, 255, 255]\<close>.
  On two 3-by-1 RGBA grids at slider position 0.5 the boundary column is 1, the marker
  is drawn, and the assignment of a three-element value to four-channel pixels raises
  \<open>ValueError\<close>.
\<close>

theorem rgba_marker_raises:
  "create_before_after_comparison rgba_a3 rgba_b3 slider_0_5 = Inl ValueError"
  by code_simp

text \<open>
  Claim C4 (boundary exactness). The boundary column is \<open>int(width * slider_position)\<close>
  on doubles: the product is rounded to a double before it is truncated. For two W-by-H
  grids of a common channel count and a slider position in [0, 1] it is
  \<open>\<lfloor>W * f\<rfloor>\<close> or \<open>\<lfloor>W * f\<rfloor> + 1\<close>. In every grid the call returns, every pixel outside the
  marker band equals the first image's pixel when its column is below the boundary column
  and the second image's pixel when its column is at or above it; the marker band is
  empty unless \<open>0 < b < W - 1\<close>, and is then the columns \<open>b - 1\<close> and \<open>b\<close>. The call returns
  a grid exactly when the grids have three channels or no marker is drawn.
\<close>

theorem boundary_exactness:
  assumes "wf_array image1" and "wf_array image2"
    and "nrows image1 = H" and "nrows image2 = H"
    and "ncols image1 = W" and "ncols image2 = W"
    and "nchan image1 = nchan image2"
    and "0 \<le> m" and "double_value (Finite m e) \<le> 1"
  shows "\<exists>b. boundary_x W (Finite m e) = Inr b \<and>
           \<lfloor>real W * double_value (Finite m e)\<rfloor> \<le> b \<and>
           b \<le> \<lfloor>real W * double_value (Finite m e)\<rfloor> + 1 \<and>
           ((\<exists>r. create_before_after_comparison image1 image2 (Finite m e) = Inr r) \<longleftrightarrow>
              (nchan image1 = 3 \<or> \<not> (0 < b \<and> b < int W - 1))) \<and>
           (\<forall>r. create_before_after_comparison image1 image2 (Finite m e) = Inr r \<longrightarrow>
              (\<forall>y < H. \<forall>c < W.
                 \<not> (0 < b \<and> b < int W - 1 \<and> b - 1 \<le> int c \<and> int c < b + 1) \<longrightarrow>
                   (int c < b \<longrightarrow> pixel_at r y c = pixel_at image1 y c) \<and>
                   (b \<le> int c \<longrightarrow> pixel_at r y c = pixel_at image2 y c)))"
proof -
  obtain b where b: "boundary_x W (Finite m e) = Inr b"
      "\<lfloor>real W * double_value (Finite m e)\<rfloor> \<le> b"
      "b \<le> \<lfloor>real W * double_value (Finite m e)\<rfloor> + 1"
      "(\<exists>r. create_before_after_comparison image1 image2 (Finite m e) = Inr r) \<longleftrightarrow>
         (nchan image1 = 3 \<or> \<not> (0 < b \<and> b < int W - 1))"
    and px: "\<And>r y c. create_before_after_comparison image1 image2 (Finite m e) = Inr r \<Longrightarrow>
      y < H \<Longrightarrow> c < W \<Longrightarrow>
      pixel_at r y c =
        (if 0 < b \<and> b < int W - 1 \<and> b - 1 \<le> int c \<and> int c < b + 1
         then [255, 255, 255]
         else if int c < b then pixel_at image1 y c
         else pixel_at image2 y c)"
    using create_pixels_unit[OF assms] by blast
  have "(int c < b \<longrightarrow> pixel_at r y c = pixel_at image1 y c) \<and>
        (b \<le> int c \<longrightarrow> pixel_at r y c = pixel_at image2 y c)"
    if "create_before_after_comparison image1 image2 (Finite m e) = Inr r"
      "y < H" "c < W" "\<not> (0 < b \<and> b < int W - 1 \<and> b - 1 \<le> int c \<and> int c < b + 1)"
    for r y c
    using px[OF that(1,2,3)] that(4) by (auto split: if_splits)
  then show ?thesis using b by blast
qed

theorem boundary_exactness_witness:
  "wf_array rgb_a5 \<and> wf_array rgb_b5 \<and>
   nrows rgb_a5 = 1 \<and> nrows rgb_b5 = 1 \<and> ncols rgb_a5 = 5 \<and> ncols rgb_b5 = 5 \<and>
   nchan rgb_a5 = nchan rgb_b5 \<and> (0::int) \<le> 5404319552844595 \<and>
   double_value (Finite 5404319552844595 (- 53)) \<le> 1 \<and>
   (\<exists>b. boundary_x 5 (Finite 5404319552844595 (- 53)) = Inr b \<and>
      \<lfloor>real 5 * double_value (Finite 5404319552844595 (- 53))\<rfloor> \<le> b \<and>
      b \<le> \<lfloor>real 5 * double_value (Finite 5404319552844595 (- 53))\<rfloor> + 1 \<and>
      (\<forall>r. create_before_after_comparison rgb_a5 rgb_b5 (Finite 5404319552844595 (- 53)) = Inr r \<longrightarrow>
         (\<forall>y < (1::nat). \<forall>c < (5::nat).
            \<not> (0 < b \<and> b < int 5 - 1 \<and> b - 1 \<le> int c \<and> int c < b + 1) \<longrightarrow>
              (int c < b \<longrightarrow> pixel_at r y c = pixel_at rgb_a5 y c) \<and>
              (b \<le> int c \<longrightarrow> pixel_at r y c = pixel_at rgb_b5 y c))))"
proof -
  have h: "wf_array rgb_a5" "wf_array rgb_b5"
    "nrows rgb_a5 = 1" "nrows rgb_b5 = 1" "ncols rgb_a5 = 5" "ncols rgb_b5 = 5"
    "nchan rgb_a5 = nchan rgb_b5" "(0::int) \<le> 5404319552844595"
    "double_value (Finite 5404319552844595 (- 53)) \<le> 1"
    by (simp_all add: wf_examples) (simp_all add: rgb_a5_def rgb_b5_def)
  show ?thesis using h boundary_exactness[OF h] by blast
qed

text \<open>
  At width 5 and the double 0.6 the product rounds to 3.0: the boundary column is 3 while
  \<open>\<lfloor>W * f\<rfloor> = 2\<close>, and column 3, which is not below 2, holds the marker colour and
  not the second image's pixel.
\<close>

theorem boundary_not_floor_of_product:
  "boundary_x 5 slider_0_6 = Inr 3 \<and>
   \<lfloor>real 5 * double_value slider_0_6\<rfloor> = 2 \<and>
   create_before_after_comparison rgb_a5 rgb_b5 slider_0_6 =
     Inr \<lparr>nrows = 1, ncols = 5, nchan = 3,
          rows = [[[1, 1, 1], [1, 1, 1], [255, 255, 255], [255, 255, 255], [9, 9, 9]]]\<rparr>"
proof (intro conjI)
  show "boundary_x 5 slider_0_6 = Inr 3" by code_simp
  show "\<lfloor>real 5 * double_value slider_0_6\<rfloor> = 2" by (simp add: slider_0_6_def)
  show "create_before_after_comparison rgb_a5 rgb_b5 slider_0_6 =
     Inr \<lparr>nrows = 1, ncols = 5, nchan = 3,
          rows = [[[1, 1, 1], [1, 1, 1], [255, 255, 255], [255, 255, 255], [9, 9, 9]]]\<rparr>"
    by code_simp
qed

text \<open>
  Claim C5 (identity at the extremes). For two grids of one size and channel count,
  slider position 0 returns the second image and slider position 1 returns the first
  image, each unchanged and without a marker. This holds for every width, in particular
  for widths of at least 2.
\<close>

theorem identity_at_extremes:
  assumes wa: "wf_array image1" and wb: "wf_array image2"
    and sh: "nrows image1 = nrows image2" "ncols image1 = ncols image2"
    and ch: "nchan image1 = nchan image2"
  shows "create_before_after_comparison image1 image2 slider_0 = Inr image2 \<and>
         create_before_after_comparison image1 image2 slider_1 = Inr image1"
proof -
  have W31: "ncols image1 < 2 ^ 31" by (rule wf_width[OF wa])
  have "create_before_after_comparison image1 image2 slider_0 = Inr image2"
    by (rule create_all_image2[OF wa wb sh ch]) (simp add: slider_0_def boundary_x_zero[OF W31])
  moreover have "create_before_after_comparison image1 image2 slider_1 = Inr image1"
    by (rule create_all_image1[OF wa wb sh ch, of _ "int (ncols image1)"])
      (simp_all add: slider_1_def boundary_x_one[OF W31])
  ultimately show ?thesis by simp
qed

theorem identity_at_extremes_witness:
  "wf_array rgb_a6 \<and> wf_array rgb_b6 \<and> nrows rgb_a6 = nrows rgb_b6 \<and>
   ncols rgb_a6 = ncols rgb_b6 \<and> nchan rgb_a6 = nchan rgb_b6 \<and>
   create_before_after_comparison rgb_a6 rgb_b6 slider_0 = Inr rgb_b6 \<and>
   create_before_after_comparison rgb_a6 rgb_b6 slider_1 = Inr rgb_a6"
proof -
  have h: "wf_array rgb_a6" "wf_array rgb_b6" "nrows rgb_a6 = nrows rgb_b6"
    "ncols rgb_a6 = ncols rgb_b6" "nchan rgb_a6 = nchan rgb_b6"
    by (simp_all add: wf_examples) (simp_all add: rgb_a6_def rgb_b6_def)
  show ?thesis using h identity_at_extremes[OF h] by blast
qed

text \<open>
  Claim C6 (output dimensions). Whatever grid the call returns, for any two grids and any
  slider position, has the smaller of the two heights and the smaller of the two widths;
  for two W-by-H grids this is W-by-H. For two three-channel grids and a slider position
  in [0, 1] the call does return a grid, whose data fills that shape.
\<close>

theorem output_dimensions:
  assumes wa: "wf_array image1" and wb: "wf_array image2"
    and H: "H = min (nrows image1) (nrows image2)"
    and W: "W = min (ncols image1) (ncols image2)"
  shows "(\<forall>r. create_before_after_comparison image1 image2 f = Inr r \<longrightarrow>
            nrows r = H \<and> ncols r = W) \<and>
         (nchan image1 = 3 \<and> nchan image2 = 3 \<and> 0 \<le> m \<and> double_value (Finite m e) \<le> 1 \<longrightarrow>
            (\<exists>r. create_before_after_comparison image1 image2 (Finite m e) = Inr r \<and>
               wf_array r \<and> nrows r = H \<and> ncols r = W))"
proof (intro conjI allI impI)
  fix r
  assume "create_before_after_comparison image1 image2 f = Inr r"
  then show "nrows r = H" "ncols r = W" using create_shape H W by simp_all
next
  assume a: "nchan image1 = 3 \<and> nchan image2 = 3 \<and> 0 \<le> m \<and> double_value (Finite m e) \<le> 1"
  then have ch: "nchan image1 = nchan image2" and c3: "nchan image1 = 3"
    and m: "0 \<le> m" and le: "of_int m * (2::real) powi e \<le> 1" by simp_all
  have "W < 2 ^ 31" using wf_width[OF wa] W by (simp add: min_less_iff_disj)
  then obtain b where b: "boundary_x W (Finite m e) = Inr b"
    using boundary_x_unit[OF _ m le] by blast
  show "\<exists>r. create_before_after_comparison image1 image2 (Finite m e) = Inr r \<and>
          wf_array r \<and> nrows r = H \<and> ncols r = W"
    using create_pixels[OF wa wb ch H W b] c3 by blast
qed

theorem output_dimensions_witness:
  "wf_array rgb_tall \<and> wf_array rgb_wide \<and>
   (1::nat) = min (nrows rgb_tall) (nrows rgb_wide) \<and>
   (2::nat) = min (ncols rgb_tall) (ncols rgb_wide) \<and>
   nchan rgb_tall = 3 \<and> nchan rgb_wide = 3 \<and> (0::int) \<le> 1 \<and>
   double_value (Finite 1 (- 1)) \<le> 1 \<and>
   (\<exists>r. create_before_after_comparison rgb_tall rgb_wide (Finite 1 (- 1)) = Inr r \<and>
        wf_array r \<and> nrows r = 1 \<and> ncols r = 2)"
proof -
  have h: "wf_array rgb_tall" "wf_array rgb_wide"
    "(1::nat) = min (nrows rgb_tall) (nrows rgb_wide)"
    "(2::nat) = min (ncols rgb_tall) (ncols rgb_wide)"
    by (simp_all add: wf_examples) (simp_all add: rgb_tall_def rgb_wide_def)
  have c: "nchan rgb_tall = 3" "nchan rgb_wide = 3" "(0::int) \<le> 1"
    "double_value (Finite 1 (- 1)) \<le> 1"
    by (simp_all add: rgb_tall_def rgb_wide_def)
  show ?thesis using h c output_dimensions[OF h, of _ 1 "- 1"] by blast
qed

text \<open>
  A slider position far outside [0, 1] returns no grid: at \<open>2.0 ** 1023\<close> on 6-by-1 grids
  the product is infinite and \<open>int()\<close> raises \<open>OverflowError\<close>.
\<close>

theorem huge_fraction_overflows:
  "create_before_after_comparison rgb_a6 rgb_b6 slider_huge = Inl OverflowError"
  by code_simp

text \<open>
  Claim C7 (the source images are not changed). On the store, the call writes only to
  buffers it allocated itself: the buffers of both source images hold after the call what
  they held before, whether the call returns or raises, and also when both arguments are
  the same image.
\<close>

theorem sources_unchanged:
  assumes "image1 < next_addr h" and "image2 < next_addr h"
  shows "cells (snd (create_before_after_comparison_st image1 image2 f h)) image1 = cells h image1 \<and>
         cells (snd (create_before_after_comparison_st image1 image2 f h)) image2 = cells h image2"
  using assms
  by (simp add: create_before_after_comparison_st_def alloc_def store_def Let_def
      split: sum.splits)

theorem sources_unchanged_witness:
  "(0::nat) < next_addr two_images \<and> (1::nat) < next_addr two_images \<and>
   cells (snd (create_before_after_comparison_st 0 1 slider_0_5 two_images)) 0 = rgb_a6 \<and>
   cells (snd (create_before_after_comparison_st 0 1 slider_0_5 two_images)) 1 = rgb_b6"
proof -
  have h: "(0::nat) < next_addr two_images" "(1::nat) < next_addr two_images"
    by (simp_all add: two_images_def)
  have c: "cells two_images 0 = rgb_a6" "cells two_images 1 = rgb_b6"
    by (simp_all add: two_images_def)
  show ?thesis using h c sources_unchanged[OF h, of slider_0_5] by simp
qed

text \<open>
  Claim C8 (when and where the marker is drawn). With the boundary column \<open>b\<close> that the
  code computes on doubles (\<open>\<lfloor>W * f\<rfloor>\<close> or \<open>\<lfloor>W * f\<rfloor> + 1\<close>), for two three-channel W-by-H
  grids and a slider position in [0, 1]: a pixel of the result is the marker colour
  exactly when \<open>0 < b < W - 1\<close> and its column lies in
  \<open>[max 0 (b - 3 div 2), min W (b + 3 div 2))\<close>, in every row; every other pixel is the one
  the split put there.
\<close>

theorem marker_band:
  assumes "wf_array image1" and "wf_array image2"
    and "nrows image1 = H" and "nrows image2 = H"
    and "ncols image1 = W" and "ncols image2 = W"
    and "nchan image1 = nchan image2"
    and "0 \<le> m" and "double_value (Finite m e) \<le> 1"
  shows "\<exists>b. boundary_x W (Finite m e) = Inr b \<and>
           \<lfloor>real W * double_value (Finite m e)\<rfloor> \<le> b \<and>
           b \<le> \<lfloor>real W * double_value (Finite m e)\<rfloor> + 1 \<and>
           (nchan image1 = 3 \<longrightarrow>
              (\<exists>r. create_before_after_comparison image1 image2 (Finite m e) = Inr r \<and>
                 (\<forall>y < H. \<forall>c < W.
                    pixel_at r y c =
                      (if (0 < b \<and> b < int W - 1) \<and>
                          max 0 (b - 3 div 2) \<le> int c \<and> int c < min (int W) (b + 3 div 2)
                       then [255, 255, 255]
                       else if int c < b then pixel_at image1 y c
                       else pixel_at image2 y c))))"
proof -
  obtain b where b: "boundary_x W (Finite m e) = Inr b"
      "\<lfloor>real W * double_value (Finite m e)\<rfloor> \<le> b"
      "b \<le> \<lfloor>real W * double_value (Finite m e)\<rfloor> + 1"
      "(\<exists>r. create_before_after_comparison image1 image2 (Finite m e) = Inr r) \<longleftrightarrow>
         (nchan image1 = 3 \<or> \<not> (0 < b \<and> b < int W - 1))"
    and px: "\<And>r y c. create_before_after_comparison image1 image2 (Finite m e) = Inr r \<Longrightarrow>
      y < H \<Longrightarrow> c < W \<Longrightarrow>
      pixel_at r y c =
        (if 0 < b \<and> b < int W - 1 \<and> b - 1 \<le> int c \<and> int c < b + 1
         then [255, 255, 255]
         else if int c < b then pixel_at image1 y c
         else pixel_at image2 y c)"
    using create_pixels_unit[OF assms] by blast
  have band: "((0 < b \<and> b < int W - 1) \<and>
                max 0 (b - 3 div 2) \<le> int c \<and> int c < min (int W) (b + 3 div 2)) \<longleftrightarrow>
              (0 < b \<and> b < int W - 1 \<and> b - 1 \<le> int c \<and> int c < b + 1)" for c
    by auto
  have "\<exists>r. create_before_after_comparison image1 image2 (Finite m e) = Inr r \<and>
          (\<forall>y < H. \<forall>c < W.
             pixel_at r y c =
               (if (0 < b \<and> b < int W - 1) \<and>
                   max 0 (b - 3 div 2) \<le> int c \<and> int c < min (int W) (b + 3 div 2)
                then [255, 255, 255]
                else if int c < b then pixel_at image1 y c
                else pixel_at image2 y c))"
    if c3: "nchan image1 = 3"
  proof -
    obtain r where r: "create_before_after_comparison image1 image2 (Finite m e) = Inr r"
      using b(4) c3 by blast
    have "\<forall>y < H. \<forall>c < W.
             pixel_at r y c =
               (if (0 < b \<and> b < int W - 1) \<and>
                   max 0 (b - 3 div 2) \<le> int c \<and> int c < min (int W) (b + 3 div 2)
                then [255, 255, 255]
                else if int c < b then pixel_at image1 y c
                else pixel_at image2 y c)"
      using px[OF r] by (simp only: band) simp
    then show ?thesis using r by blast
  qed
  then show ?thesis using b(1-3) by blast
qed

theorem marker_band_witness:
  "wf_array rgb_a5 \<and> wf_array rgb_b5 \<and>
   nrows rgb_a5 = 1 \<and> nrows rgb_b5 = 1 \<and> ncols rgb_a5 = 5 \<and> ncols rgb_b5 = 5 \<and>
   nchan rgb_a5 = nchan rgb_b5 \<and> (0::int) \<le> 5404319552844595 \<and>
   double_value (Finite 5404319552844595 (- 53)) \<le> 1 \<and> nchan rgb_a5 = 3 \<and>
   (\<exists>b r. boundary_x 5 (Finite 5404319552844595 (- 53)) = Inr b \<and>
      create_before_after_comparison rgb_a5 rgb_b5 (Finite 5404319552844595 (- 53)) = Inr r \<and>
      (\<forall>y < (1::nat). \<forall>c < (5::nat).
         pixel_at r y c =
           (if (0 < b \<and> b < int 5 - 1) \<and>
               max 0 (b - 3 div 2) \<le> int c \<and> int c < min (int 5) (b + 3 div 2)
            then [255, 255, 255]
            else if int c < b then pixel_at rgb_a5 y c
            else pixel_at rgb_b5 y c)))"
proof -
  have h: "wf_array rgb_a5" "wf_array rgb_b5"
    "nrows rgb_a5 = 1" "nrows rgb_b5 = 1" "ncols rgb_a5 = 5" "ncols rgb_b5 = 5"
    "nchan rgb_a5 = nchan rgb_b5" "(0::int) \<le> 5404319552844595"
    "double_value (Finite 5404319552844595 (- 53)) \<le> 1"
    by (simp_all add: wf_examples) (simp_all add: rgb_a5_def rgb_b5_def)
  have c3: "nchan rgb_a5 = 3" by (simp add: rgb_a5_def)
  show ?thesis using h c3 marker_band[OF h] by blast
qed

text \<open>
  At width 5 and the double 0.6, \<open>\<lfloor>W * f\<rfloor> = 2\<close> would put the band on columns 1 and 2;
  the result is white in columns 2 and 3, and column 1 holds the first image's pixel.
\<close>

theorem marker_band_not_at_floor:
  "max 0 (\<lfloor>real 5 * double_value slider_0_6\<rfloor> - 3 div 2) = 1 \<and>
   min 5 (\<lfloor>real 5 * double_value slider_0_6\<rfloor> + 3 div 2) = 3 \<and>
   create_before_after_comparison rgb_b5 rgb_a5 slider_0_6 =
     Inr \<lparr>nrows = 1, ncols = 5, nchan = 3,
          rows = [[[9, 9, 9], [9, 9, 9], [255, 255, 255], [255, 255, 255], [1, 1, 1]]]\<rparr>"
proof (intro conjI)
  show "max 0 (\<lfloor>real 5 * double_value slider_0_6\<rfloor> - 3 div 2) = 1"
    by (simp add: slider_0_6_def)
  show "min 5 (\<lfloor>real 5 * double_value slider_0_6\<rfloor> + 3 div 2) = 3"
    by (simp add: slider_0_6_def)
  show "create_before_after_comparison rgb_b5 rgb_a5 slider_0_6 =
     Inr \<lparr>nrows = 1, ncols = 5, nchan = 3,
          rows = [[[9, 9, 9], [9, 9, 9], [255, 255, 255], [255, 255, 255], [1, 1, 1]]]\<rparr>"
    by code_simp
qed

text \<open>
  Claim C9 (the concrete scenario). For the 10-by-1 grids of pixels (1,1,1) and (9,9,9)
  at slider position 0.5 the boundary column is 5. The result has (1,1,1) in columns 0 to
  3 and the marker colour in columns 4 and 5; column 6 holds (9,9,9), as columns 7 to 9
  do.
\<close>

theorem scenario_marker_two_columns:
  "create_before_after_comparison rgb_a10 rgb_b10 slider_0_5 =
     Inr \<lparr>nrows = 1, ncols = 10, nchan = 3,
          rows = [[[1, 1, 1], [1, 1, 1], [1, 1, 1], [1, 1, 1], [255, 255, 255],
                   [255, 255, 255], [9, 9, 9], [9, 9, 9], [9, 9, 9], [9, 9, 9]]]\<rparr>"
  by code_simp

text \<open>
  Claim C10 (monotone split). For two W-by-H grids and slider positions
  \<open>0 \<le> f1 \<le> f2 \<le> 1\<close>, the boundary column the code computes for \<open>f1\<close> is at most the one
  for \<open>f2\<close>. The assignment \<open>result[:, boundary_x:] = img2_np[:, boundary_x:]\<close> leaves in
  \<open>result\<close> the first image's pixels below the boundary column and the second image's from
  there on (the compositor then draws its marker on that grid), so the columns taken from
  the second image under \<open>f2\<close> are among those taken under \<open>f1\<close>.
\<close>

theorem split_monotone:
  assumes wa: "wf_array image1" and wb: "wf_array image2"
    and sh: "nrows image1 = H" "nrows image2 = H" "ncols image1 = W" "ncols image2 = W"
    and ch: "nchan image1 = nchan image2"
    and m1: "0 \<le> m1"
    and le: "double_value (Finite m1 e1) \<le> double_value (Finite m2 e2)"
    and top: "double_value (Finite m2 e2) \<le> 1"
  shows "\<exists>b1 b2 r1 r2.
           boundary_x W (Finite m1 e1) = Inr b1 \<and> boundary_x W (Finite m2 e2) = Inr b2 \<and>
           b1 \<le> b2 \<and>
           set_cols_from b1 (crop H W image1) (crop H W image2) = Inr r1 \<and>
           set_cols_from b2 (crop H W image1) (crop H W image2) = Inr r2 \<and>
           create_before_after_comparison image1 image2 (Finite m1 e1) =
             (if 0 < b1 \<and> b1 < int W - 1
              then fill_cols (max 0 (b1 - 3 div 2)) (min (int W) (b1 + 3 div 2)) [255, 255, 255] r1
              else Inr r1) \<and>
           create_before_after_comparison image1 image2 (Finite m2 e2) =
             (if 0 < b2 \<and> b2 < int W - 1
              then fill_cols (max 0 (b2 - 3 div 2)) (min (int W) (b2 + 3 div 2)) [255, 255, 255] r2
              else Inr r2) \<and>
           (\<forall>y < H. \<forall>c < W.
              pixel_at r1 y c = (if int c < b1 then pixel_at image1 y c else pixel_at image2 y c) \<and>
              pixel_at r2 y c = (if int c < b2 then pixel_at image1 y c else pixel_at image2 y c)) \<and>
           {c. c < W \<and> b2 \<le> int c} \<subseteq> {c. c < W \<and> b1 \<le> int c}"
proof -
  have W31: "W < 2 ^ 31" using wf_width[OF wa] sh by simp
  have le': "of_int m1 * (2::real) powi e1 \<le> of_int m2 * 2 powi e2" using le by simp
  have top': "of_int m2 * (2::real) powi e2 \<le> 1" using top by simp
  have m2: "0 \<le> m2"
  proof (rule ccontr)
    assume "\<not> 0 \<le> m2"
    then have "of_int m2 * (2::real) powi e2 < 0" by (simp add: mult_neg_pos)
    moreover have "0 \<le> of_int m1 * (2::real) powi e1" using m1 by simp
    ultimately show False using le' by linarith
  qed
  have top1: "of_int m1 * (2::real) powi e1 \<le> 1" using le' top' by linarith
  obtain b1 where b1: "boundary_x W (Finite m1 e1) = Inr b1" "0 \<le> b1" "b1 \<le> int W"
    using boundary_x_unit[OF W31 m1 top1] by blast
  obtain b2 where b2: "boundary_x W (Finite m2 e2) = Inr b2" "0 \<le> b2" "b2 \<le> int W"
    using boundary_x_unit[OF W31 m2 top'] by blast
  have "real W * (of_int m2 * 2 powi e2) \<le> real W * 1"
    using top' by (intro mult_left_mono) simp_all
  then have "real W * (of_int m2 * 2 powi e2) \<le> 2 ^ 53" using width_real_bound[OF W31] by simp
  then have mono: "b1 \<le> b2" using boundary_x_mono[OF W31 m1 le'] b1(1) b2(1) by auto
  define D where "D = crop H W image1"
  define S where "S = crop H W image2"
  have wD: "wf_array D" and wS: "wf_array S"
    using wa wb by (simp_all add: D_def S_def wf_crop)
  have shD: "nrows D = H" "ncols D = W" "nchan D = nchan image1"
    using sh by (simp_all add: D_def)
  have shS: "nrows S = H" "ncols S = W" "nchan S = nchan image1"
    using sh ch by (simp_all add: S_def)
  have pD: "pixel_at D y c = pixel_at image1 y c" if "y < H" "c < W" for y c
    unfolding D_def using that sh by (intro crop_pixel[OF wa]) simp_all
  have pS: "pixel_at S y c = pixel_at image2 y c" if "y < H" "c < W" for y c
    unfolding S_def using that sh by (intro crop_pixel[OF wb]) simp_all
  have stage: "\<exists>r. set_cols_from b D S = Inr r \<and>
      (\<forall>y < H. \<forall>c < W. pixel_at r y c =
         (if int c < b then pixel_at image1 y c else pixel_at image2 y c))"
    if "0 \<le> b" "b \<le> int W" for b
  proof -
    have si: "c < slice_index W b \<longleftrightarrow> int c < b" for c
      using that by (auto simp: slice_index_def)
    obtain r where r: "set_cols_from b D S = Inr r"
      and p: "\<And>y c. y < H \<Longrightarrow> c < W \<Longrightarrow>
        pixel_at r y c = (if c < slice_index W b then pixel_at D y c else pixel_at S y c)"
      using set_cols_from_pixels[OF wD wS, of b] shD shS by auto
    have "\<forall>y < H. \<forall>c < W. pixel_at r y c =
         (if int c < b then pixel_at image1 y c else pixel_at image2 y c)"
      using p pD pS by (simp add: si)
    then show ?thesis using r by blast
  qed
  obtain r1 where r1: "set_cols_from b1 D S = Inr r1"
    "\<forall>y < H. \<forall>c < W. pixel_at r1 y c =
       (if int c < b1 then pixel_at image1 y c else pixel_at image2 y c)"
    using stage[OF b1(2,3)] by blast
  obtain r2 where r2: "set_cols_from b2 D S = Inr r2"
    "\<forall>y < H. \<forall>c < W. pixel_at r2 y c =
       (if int c < b2 then pixel_at image1 y c else pixel_at image2 y c)"
    using stage[OF b2(2,3)] by blast
  have c1: "create_before_after_comparison image1 image2 (Finite m1 e1) =
             (if 0 < b1 \<and> b1 < int W - 1
              then fill_cols (max 0 (b1 - 3 div 2)) (min (int W) (b1 + 3 div 2)) [255, 255, 255] r1
              else Inr r1)"
    using create_stages[of image1 image2 "Finite m1 e1" b1 r1] b1(1) r1(1) sh
    by (simp add: D_def S_def)
  have c2: "create_before_after_comparison image1 image2 (Finite m2 e2) =
             (if 0 < b2 \<and> b2 < int W - 1
              then fill_cols (max 0 (b2 - 3 div 2)) (min (int W) (b2 + 3 div 2)) [255, 255, 255] r2
              else Inr r2)"
    using create_stages[of image1 image2 "Finite m2 e2" b2 r2] b2(1) r2(1) sh
    by (simp add: D_def S_def)
  have sub: "{c. c < W \<and> b2 \<le> int c} \<subseteq> {c. c < W \<and> b1 \<le> int c}"
    using mono by auto
  show ?thesis
    using b1(1) b2(1) mono r1 r2 c1 c2 sub unfolding D_def S_def by blast
qed

theorem split_monotone_witness:
  "wf_array rgb_a5 \<and> wf_array rgb_b5 \<and>
   nrows rgb_a5 = 1 \<and> nrows rgb_b5 = 1 \<and> ncols rgb_a5 = 5 \<and> ncols rgb_b5 = 5 \<and>
   nchan rgb_a5 = nchan rgb_b5 \<and> (0::int) \<le> 1 \<and>
   double_value (Finite 1 (- 1)) \<le> double_value (Finite 5404319552844595 (- 53)) \<and>
   double_value (Finite 5404319552844595 (- 53)) \<le> 1 \<and>
   (\<exists>b1 b2. boundary_x 5 (Finite 1 (- 1)) = Inr b1 \<and>
      boundary_x 5 (Finite 5404319552844595 (- 53)) = Inr b2 \<and> b1 \<le> b2 \<and>
      {c. c < (5::nat) \<and> b2 \<le> int c} \<subseteq> {c. c < 5 \<and> b1 \<le> int c})"
proof -
  have h: "wf_array rgb_a5" "wf_array rgb_b5"
    "nrows rgb_a5 = 1" "nrows rgb_b5 = 1" "ncols rgb_a5 = 5" "ncols rgb_b5 = 5"
    "nchan rgb_a5 = nchan rgb_b5" "(0::int) \<le> 1"
    "double_value (Finite 1 (- 1)) \<le> double_value (Finite 5404319552844595 (- 53))"
    "double_value (Finite 5404319552844595 (- 53)) \<le> 1"
    by (simp_all add: wf_examples) (simp_all add: rgb_a5_def rgb_b5_def)
  show ?thesis using h split_monotone[OF h] by blast
qed

end
